theory Spec2Isabelle
  imports Main
begin

section \<open>Errors and loops\<close>

text \<open>
  The sources abort through \<^verbatim>\<open>VTR_ASSERT\<close> and \<^verbatim>\<open>vpr_throw\<close>. Both are values here:
  a function that can abort returns \<open>error + 'a\<close>, with \<open>Inl\<close> for the abort.
  \<open>OutOfBounds\<close>, \<open>DivideByZero\<close>, \<open>UndefinedShift\<close> and \<open>UndefinedConversion\<close>
  stand for reads, writes, divisions, shifts and conversions that C++ leaves undefined; the
  model stops there instead of inventing a value. \<open>InvalidId\<close> is the use of an identifier
  of the atom netlist that names nothing.
\<close>

datatype error =
    AssertionFailed
  | OutOfBounds
  | DivideByZero
  | UndefinedShift
  | UnrecognizedOutputValue
  | NetInconsistency string
  | GlobalMix string
  | DuplicateName string
  | InvalidId
  | UndefinedConversion

text \<open>A \<^verbatim>\<open>for\<close> loop over a sequence whose body may abort.\<close>

fun fold_err :: "('a \<Rightarrow> 's \<Rightarrow> error + 's) \<Rightarrow> 'a list \<Rightarrow> 's \<Rightarrow> error + 's" where
  "fold_err f [] s = Inr s"
| "fold_err f (x # xs) s = (case f x s of Inl e \<Rightarrow> Inl e | Inr s' \<Rightarrow> fold_err f xs s')"

lemma fold_err_invariant:
  assumes "fold_err f xs s = Inr s'" and "P s"
    and "\<And>x t t'. x \<in> set xs \<Longrightarrow> P t \<Longrightarrow> f x t = Inr t' \<Longrightarrow> P t'"
  shows "P s'"
  using assms
proof (induction xs arbitrary: s)
  case Nil
  then show ?case by simp
next
  case (Cons x xs)
  then obtain t where t: "f x s = Inr t" and r: "fold_err f xs t = Inr s'"
    by (auto split: sum.splits)
  have "P t" using Cons.prems(2,3) t by auto
  with Cons.IH [OF r] Cons.prems(3) show ?case by auto
qed

section \<open>The net hash table and \<^verbatim>\<open>add_net_to_hash\<close>\<close>

type_synonym AtomNetId = "nat option"

definition OPEN :: int where
  "OPEN = - 1"

record s_hash =
  h_name :: string
  h_index :: int
  h_count :: int

type_synonym hash_table = "s_hash list"

text \<open>
  Modelled from the spec: \<^verbatim>\<open>insert_in_hash_table\<close> of hash.c, which is not among the
  sources. The spec (4.4) describes a table that deduplicates nets by name, hands out a
  compact index and keeps an in-hash occurrence count: a name already present has its count
  increased, a new name is entered with the index offered by the caller and count one. The
  entry is returned. The table is kept in insertion order.
\<close>

fun insert_in_hash_table :: "hash_table \<Rightarrow> string \<Rightarrow> int \<Rightarrow> hash_table \<times> s_hash" where
  "insert_in_hash_table [] name next_free_index =
     ([\<lparr>h_name = name, h_index = next_free_index, h_count = 1\<rparr>],
      \<lparr>h_name = name, h_index = next_free_index, h_count = 1\<rparr>)"
| "insert_in_hash_table (h # hs) name next_free_index =
     (if h_name h = name then (h\<lparr>h_count := h_count h + 1\<rparr> # hs, h\<lparr>h_count := h_count h + 1\<rparr>)
      else (case insert_in_hash_table hs name next_free_index of
              (hs', r) \<Rightarrow> (h # hs', r)))"

text \<open>
  \<^verbatim>\<open>add_net_to_hash\<close> (read_netlist.c). The C function updates \<^verbatim>\<open>nhash\<close> and
  \<^verbatim>\<open>*ncount\<close> in place and returns the index; the model returns all three.
\<close>

definition add_net_to_hash :: "hash_table \<Rightarrow> string \<Rightarrow> int \<Rightarrow> error + (int \<times> hash_table \<times> int)" where
  "add_net_to_hash nhash net_name ncount =
     (if net_name = ''open'' then Inr (OPEN, nhash, ncount)
      else (case insert_in_hash_table nhash net_name ncount of
        (nhash', hash_value) \<Rightarrow>
          if h_count hash_value = 1 then
            (if ncount = h_index hash_value
             then Inr (h_index hash_value, nhash', ncount + 1)
             else Inl AssertionFailed)
          else Inr (h_index hash_value, nhash', ncount)))"

section \<open>The cluster-net extractor: \<^verbatim>\<open>load_external_nets_and_cb\<close>\<close>

text \<open>
  What the extractor reads of a clustered block. \<^verbatim>\<open>e_pin_type\<close> is the type of a pin
  class; \<open>pin_class_type\<close> is \<^verbatim>\<open>type->class_inf[type->pin_class[j]].type\<close> for each
  pin \<open>j\<close>; \<open>blk_nets\<close> is the block's \<^verbatim>\<open>nets\<close> array and \<open>ext_net_name\<close> the
  \<^verbatim>\<open>name\<close> of an external net. The pin lists of the top-level \<^verbatim>\<open>pb_graph_node\<close> hold the
  \<^verbatim>\<open>pin_count_in_cluster\<close> of every pin, port by port. A \<^verbatim>\<open>pb_route\<close> entry holds
  the atom net carried by the pin and the pin driving it (\<open>OPEN\<close> when none).
\<close>

datatype e_pin_type = PIN_OPEN | DRIVER | RECEIVER

record t_type_descriptor =
  num_pins :: nat
  capacity :: nat
  pb_num_input_pins :: nat
  pb_num_output_pins :: nat
  pb_num_clock_pins :: nat
  pin_class_type :: "e_pin_type list"
  is_global_pin :: "bool list"

record t_pb_route =
  atom_net_id :: AtomNetId
  prev_pb_pin_id :: int

record s_block =
  blk_type :: t_type_descriptor
  input_pins :: "int list list"
  output_pins :: "int list list"
  clock_pins :: "int list list"
  pb_route :: "t_pb_route list"
  blk_nets :: "int list"


text \<open>
  The body of the three pin loops (lines 749-760, 767-777 and 784-794): the pin's
  \<^verbatim>\<open>pin_count_in_cluster\<close> must be the running \<^verbatim>\<open>ipin\<close>; a pin that carries an atom
  net has the net's name interned, any other pin is \<open>OPEN\<close>. The state is
  \<^verbatim>\<open>(ipin, nets, ext_nhash, ext_ncount)\<close>. \<open>nm\<close> is \<^verbatim>\<open>g_atom_nl.net_name\<close>.
\<close>

definition load_pin ::
  "(nat \<Rightarrow> string) \<Rightarrow> t_pb_route list \<Rightarrow> int \<Rightarrow> nat \<times> int list \<times> hash_table \<times> int
     \<Rightarrow> error + (nat \<times> int list \<times> hash_table \<times> int)" where
  "load_pin nm route pin_count_in_cluster st =
     (case st of (ipin, nets_i, nhash, ncount) \<Rightarrow>
        if pin_count_in_cluster \<noteq> int ipin then Inl AssertionFailed
        else if \<not> ipin < length route \<or> \<not> ipin < length nets_i then Inl OutOfBounds
        else (case atom_net_id (route ! ipin) of
                Some net_id \<Rightarrow>
                  (case add_net_to_hash nhash (nm net_id) ncount of
                     Inl e \<Rightarrow> Inl e
                   | Inr (idx, nhash', ncount') \<Rightarrow>
                       Inr (ipin + 1, nets_i[ipin := idx], nhash', ncount'))
              | None \<Rightarrow> Inr (ipin + 1, nets_i[ipin := OPEN], nhash, ncount)))"

text \<open>
  One round of the first loop over the blocks (lines 731-800). The closing loop of the
  source writes \<^verbatim>\<open>nets[ipin]\<close> on every round, so it is one write when it runs at all.
\<close>

definition load_block_nets ::
  "(nat \<Rightarrow> string) \<Rightarrow> s_block \<Rightarrow> s_block list \<times> hash_table \<times> int
     \<Rightarrow> error + (s_block list \<times> hash_table \<times> int)" where
  "load_block_nets nm b st =
     (case st of (acc, nhash, ncount) \<Rightarrow>
        if capacity (blk_type b) = 0 then Inl DivideByZero
        else if pb_num_input_pins (blk_type b) + pb_num_output_pins (blk_type b)
                  + pb_num_clock_pins (blk_type b)
                \<noteq> num_pins (blk_type b) div capacity (blk_type b) then Inl AssertionFailed
        else (case fold_err (load_pin nm (pb_route b))
                     (concat (input_pins b) @ concat (output_pins b) @ concat (clock_pins b))
                     (0, blk_nets b, nhash, ncount) of
                Inl e \<Rightarrow> Inl e
              | Inr (ipin, nets_i, nhash', ncount') \<Rightarrow>
                  if ipin < num_pins (blk_type b) then
                    (if ipin < length nets_i
                     then Inr (acc @ [b\<lparr>blk_nets := nets_i[ipin := OPEN]\<rparr>], nhash', ncount')
                     else Inl OutOfBounds)
                  else Inr (acc @ [b\<lparr>blk_nets := nets_i\<rparr>], nhash', ncount')))"

text \<open>
  The first phase: every block's external pins are walked and the names interned, from an
  empty table and a count of zero.
\<close>

definition intern_external_nets ::
  "(nat \<Rightarrow> string) \<Rightarrow> s_block list \<Rightarrow> error + (s_block list \<times> hash_table \<times> int)" where
  "intern_external_nets nm block_list = fold_err (load_block_nets nm) block_list ([], [], 0)"














text \<open>
  Three one-pin clusters for the examples: a pad whose output pin drives, a flip-flop with a
  global clock pin, and a LUT with an ordinary input pin. Each carries atom net 0 on its pin.
\<close>

definition io_type :: t_type_descriptor where
  "io_type = \<lparr>num_pins = 1, capacity = 1, pb_num_input_pins = 0, pb_num_output_pins = 1,
     pb_num_clock_pins = 0, pin_class_type = [DRIVER], is_global_pin = [False]\<rparr>"
definition lut_type :: t_type_descriptor where
  "lut_type = \<lparr>num_pins = 1, capacity = 1, pb_num_input_pins = 1, pb_num_output_pins = 0,
     pb_num_clock_pins = 0, pin_class_type = [RECEIVER], is_global_pin = [False]\<rparr>"
definition io_block :: s_block where
  "io_block = \<lparr>blk_type = io_type, input_pins = [], output_pins = [[0]], clock_pins = [],
     pb_route = [\<lparr>atom_net_id = Some 0, prev_pb_pin_id = OPEN\<rparr>], blk_nets = [OPEN]\<rparr>"



definition open_block :: s_block where
  "open_block = \<lparr>blk_type = lut_type, input_pins = [[0]], output_pins = [], clock_pins = [],
     pb_route = [\<lparr>atom_net_id = Some 1, prev_pb_pin_id = OPEN\<rparr>], blk_nets = [OPEN]\<rparr>"

definition example_net_name :: "nat \<Rightarrow> string" where
  "example_net_name n = (if n = 0 then ''clk'' else ''open'')"







section \<open>The atom netlist store\<close>

text \<open>
  Identifiers are indices into the store's arrays; \<open>None\<close> is the invalid sentinel
  (\<^verbatim>\<open>AtomBlockId::INVALID()\<close> and its like), which is what a C++ identifier tests false
  for.
\<close>

datatype AtomBlockType = INPAD | OUTPAD | COMBINATIONAL | SEQUENTIAL

datatype AtomPinType = ATOM_DRIVER | ATOM_SINK

datatype PortDir = INPUT | OUTPUT | CLOCK

datatype LogicValue = FALSE | TRUE | DONT_CARE | UNKNOWN

type_synonym AtomBlockId = "nat option"
type_synonym AtomPortId = "nat option"
type_synonym AtomPinId = "nat option"
type_synonym TruthTable = "LogicValue list list"

text \<open>
  Modelled from the spec: the class \<^verbatim>\<open>AtomNetlist\<close> (atom_netlist.h and its
  implementation), which is not among the sources; atom_netlist_utils.c only calls it. The
  spec (3, 4.1 and 9) describes parallel ID-indexed arrays per entity kind with ID-valued
  cross-references: a block has a name, a kind, a model and a truth table; a port has its
  owning block, a direction, a name and a width; a pin has its owning port, its bit, its type
  and the net it belongs to (possibly invalid); a net has a name, one driver pin (possibly
  invalid), an ordered collection of sink pins, a constant flag and a global flag. A removed
  entity is a tombstone (\<open>None\<close>) and identifiers are never reused. The model of a block is
  kept by its name, which is all the sources read of it. The constant flag of a pin is what
  \<^verbatim>\<open>pin_is_constant\<close> answers.
\<close>

record atom_block =
  blk_name :: string
  blk_kind :: AtomBlockType
  blk_model :: string
  blk_truth_table :: TruthTable

record atom_port =
  prt_block :: AtomBlockId
  prt_dir :: PortDir
  prt_name :: string
  prt_width :: nat

record atom_pin =
  pn_port :: AtomPortId
  pn_bit :: nat
  pn_type :: AtomPinType
  pn_net :: AtomNetId
  pn_constant :: bool

record atom_net =
  nt_name :: string
  nt_driver :: AtomPinId
  nt_sinks :: "AtomPinId list"
  nt_constant :: bool
  nt_global :: bool

record AtomNetlist =
  block_store :: "atom_block option list"
  port_store :: "atom_port option list"
  pin_store :: "atom_pin option list"
  net_store :: "atom_net option list"

text \<open>
  Modelled from the spec: lookups. An invalid or tombstoned identifier finds nothing
  (3: "subsequent lookups return the invalid sentinel"). \<open>ids\<close> is an array of
  identifiers as the ranges \<^verbatim>\<open>blocks()\<close> and \<^verbatim>\<open>nets()\<close> hand it out: the slot of a
  removed entity holds the invalid identifier.
\<close>

definition lookup :: "'a option list \<Rightarrow> nat option \<Rightarrow> 'a option" where
  "lookup store ident =
     (case ident of None \<Rightarrow> None
      | Some i \<Rightarrow> if i < length store then store ! i else None)"

definition ids :: "'a option list \<Rightarrow> nat option list" where
  "ids store = map (\<lambda>i. if store ! i = None then None else Some i) [0 ..< length store]"

definition kill :: "'a option list \<Rightarrow> nat option \<Rightarrow> 'a option list" where
  "kill store ident = (case ident of None \<Rightarrow> store | Some i \<Rightarrow> store[i := None])"

definition blocks :: "AtomNetlist \<Rightarrow> AtomBlockId list" where
  "blocks netlist = ids (block_store netlist)"

definition nets :: "AtomNetlist \<Rightarrow> AtomNetId list" where
  "nets netlist = ids (net_store netlist)"

text \<open>Modelled from the spec: the query operations of 4.1 that the sources call.\<close>

definition block_type :: "AtomNetlist \<Rightarrow> AtomBlockId \<Rightarrow> AtomBlockType option" where
  "block_type netlist blk = map_option blk_kind (lookup (block_store netlist) blk)"

definition block_model :: "AtomNetlist \<Rightarrow> AtomBlockId \<Rightarrow> string option" where
  "block_model netlist blk = map_option blk_model (lookup (block_store netlist) blk)"

definition block_truth_table :: "AtomNetlist \<Rightarrow> AtomBlockId \<Rightarrow> TruthTable" where
  "block_truth_table netlist blk =
     (case lookup (block_store netlist) blk of None \<Rightarrow> [] | Some b \<Rightarrow> blk_truth_table b)"

definition block_ports :: "AtomNetlist \<Rightarrow> AtomBlockId \<Rightarrow> AtomPortId list" where
  "block_ports netlist blk =
     (case lookup (block_store netlist) blk of
        None \<Rightarrow> []
      | Some b \<Rightarrow>
          filter (\<lambda>p. case lookup (port_store netlist) p of
                         None \<Rightarrow> False | Some r \<Rightarrow> prt_block r = blk)
                 (ids (port_store netlist)))"

definition port_dir :: "AtomNetlist \<Rightarrow> AtomPortId \<Rightarrow> PortDir option" where
  "port_dir netlist port = map_option prt_dir (lookup (port_store netlist) port)"

definition block_input_ports :: "AtomNetlist \<Rightarrow> AtomBlockId \<Rightarrow> AtomPortId list" where
  "block_input_ports netlist blk =
     filter (\<lambda>p. port_dir netlist p = Some INPUT) (block_ports netlist blk)"

definition block_output_ports :: "AtomNetlist \<Rightarrow> AtomBlockId \<Rightarrow> AtomPortId list" where
  "block_output_ports netlist blk =
     filter (\<lambda>p. port_dir netlist p = Some OUTPUT) (block_ports netlist blk)"

definition block_clock_ports :: "AtomNetlist \<Rightarrow> AtomBlockId \<Rightarrow> AtomPortId list" where
  "block_clock_ports netlist blk =
     filter (\<lambda>p. port_dir netlist p = Some CLOCK) (block_ports netlist blk)"

definition port_pins :: "AtomNetlist \<Rightarrow> AtomPortId \<Rightarrow> AtomPinId list" where
  "port_pins netlist port =
     (case lookup (port_store netlist) port of
        None \<Rightarrow> []
      | Some r \<Rightarrow>
          filter (\<lambda>q. case lookup (pin_store netlist) q of
                         None \<Rightarrow> False | Some pr \<Rightarrow> pn_port pr = port)
                 (ids (pin_store netlist)))"

definition block_pins :: "AtomNetlist \<Rightarrow> AtomBlockId \<Rightarrow> AtomPinId list" where
  "block_pins netlist blk = concat (map (port_pins netlist) (block_ports netlist blk))"

definition block_input_pins :: "AtomNetlist \<Rightarrow> AtomBlockId \<Rightarrow> AtomPinId list" where
  "block_input_pins netlist blk = concat (map (port_pins netlist) (block_input_ports netlist blk))"

definition block_output_pins :: "AtomNetlist \<Rightarrow> AtomBlockId \<Rightarrow> AtomPinId list" where
  "block_output_pins netlist blk = concat (map (port_pins netlist) (block_output_ports netlist blk))"

definition block_clock_pins :: "AtomNetlist \<Rightarrow> AtomBlockId \<Rightarrow> AtomPinId list" where
  "block_clock_pins netlist blk = concat (map (port_pins netlist) (block_clock_ports netlist blk))"

definition pin_net :: "AtomNetlist \<Rightarrow> AtomPinId \<Rightarrow> AtomNetId" where
  "pin_net netlist pin =
     (case lookup (pin_store netlist) pin of None \<Rightarrow> None | Some r \<Rightarrow> pn_net r)"

definition pin_type :: "AtomNetlist \<Rightarrow> AtomPinId \<Rightarrow> AtomPinType option" where
  "pin_type netlist pin = map_option pn_type (lookup (pin_store netlist) pin)"

definition pin_is_constant :: "AtomNetlist \<Rightarrow> AtomPinId \<Rightarrow> bool" where
  "pin_is_constant netlist pin =
     (case lookup (pin_store netlist) pin of None \<Rightarrow> False | Some r \<Rightarrow> pn_constant r)"

definition pin_block :: "AtomNetlist \<Rightarrow> AtomPinId \<Rightarrow> AtomBlockId" where
  "pin_block netlist pin =
     (case lookup (pin_store netlist) pin of
        None \<Rightarrow> None
      | Some r \<Rightarrow>
          (case lookup (port_store netlist) (pn_port r) of
             None \<Rightarrow> None | Some pr \<Rightarrow> prt_block pr))"

definition net_name :: "AtomNetlist \<Rightarrow> AtomNetId \<Rightarrow> string option" where
  "net_name netlist net = map_option nt_name (lookup (net_store netlist) net)"

definition net_driver :: "AtomNetlist \<Rightarrow> AtomNetId \<Rightarrow> AtomPinId" where
  "net_driver netlist net =
     (case lookup (net_store netlist) net of None \<Rightarrow> None | Some r \<Rightarrow> nt_driver r)"

definition net_sinks :: "AtomNetlist \<Rightarrow> AtomNetId \<Rightarrow> AtomPinId list" where
  "net_sinks netlist net =
     (case lookup (net_store netlist) net of None \<Rightarrow> [] | Some r \<Rightarrow> nt_sinks r)"

definition net_pins :: "AtomNetlist \<Rightarrow> AtomNetId \<Rightarrow> AtomPinId list" where
  "net_pins netlist net =
     (case lookup (net_store netlist) net of
        None \<Rightarrow> [] | Some r \<Rightarrow> nt_driver r # nt_sinks r)"

definition net_is_constant :: "AtomNetlist \<Rightarrow> AtomNetId \<Rightarrow> bool" where
  "net_is_constant netlist net =
     (case lookup (net_store netlist) net of None \<Rightarrow> False | Some r \<Rightarrow> nt_constant r)"

definition find_net :: "AtomNetlist \<Rightarrow> string \<Rightarrow> AtomNetId" where
  "find_net netlist name =
     (case find (\<lambda>n. net_name netlist n = Some name) (nets netlist) of
        None \<Rightarrow> None | Some n \<Rightarrow> n)"

text \<open>
  Modelled from the spec: \<^verbatim>\<open>remove_block\<close> (4.1) "removes all its ports and pins; for
  each pin, it is detached from its net (sinks list compacted; driver set invalid if
  applicable)", and does not remove the nets. \<open>detach_pin\<close> is the part done for one pin.
  Removing what is not there is the use of an invalid identifier and is fatal.
\<close>

definition detach_pin :: "AtomNetlist \<Rightarrow> AtomPinId \<Rightarrow> AtomNetlist" where
  "detach_pin netlist pin =
     (case lookup (pin_store netlist) pin of
        None \<Rightarrow> netlist
      | Some r \<Rightarrow>
          netlist\<lparr>net_store :=
                    (case pn_net r of
                       None \<Rightarrow> net_store netlist
                     | Some n \<Rightarrow>
                         (case lookup (net_store netlist) (Some n) of
                            None \<Rightarrow> net_store netlist
                          | Some nr \<Rightarrow>
                              (net_store netlist)[n := Some
                                 (if nt_driver nr = pin then nr\<lparr>nt_driver := None\<rparr>
                                  else nr\<lparr>nt_sinks := removeAll pin (nt_sinks nr)\<rparr>)])),
                  pin_store := kill (pin_store netlist) pin\<rparr>)"

definition remove_block :: "AtomNetlist \<Rightarrow> AtomBlockId \<Rightarrow> error + AtomNetlist" where
  "remove_block netlist blk =
     (case lookup (block_store netlist) blk of
        None \<Rightarrow> Inl InvalidId
      | Some b \<Rightarrow>
          Inr ((fold (\<lambda>pin n. detach_pin n pin) (block_pins netlist blk) netlist)
                 \<lparr>block_store := kill (block_store netlist) blk,
                  port_store := fold (\<lambda>p st. kill st p) (block_ports netlist blk)
                                     (port_store netlist)\<rparr>))"

text \<open>
  Modelled from the spec: \<^verbatim>\<open>remove_net\<close> (4.1) "sets net to invalid on every pin that
  referenced it" and tombstones the net.
\<close>

definition remove_net :: "AtomNetlist \<Rightarrow> AtomNetId \<Rightarrow> error + AtomNetlist" where
  "remove_net netlist net =
     (case lookup (net_store netlist) net of
        None \<Rightarrow> Inl InvalidId
      | Some r \<Rightarrow>
          Inr (netlist\<lparr>pin_store :=
                         map (map_option (\<lambda>pr. if pn_net pr = net then pr\<lparr>pn_net := None\<rparr> else pr))
                             (pin_store netlist),
                       net_store := kill (net_store netlist) net\<rparr>))"

text \<open>
  Modelled from the spec: \<^verbatim>\<open>add_net\<close> (4.1) "fails (DuplicateName) if the name is live;
  rebinds each supplied pin's net to the new net". The new net takes the next identifier,
  since identifiers are never reused; it is neither constant nor global.
\<close>

definition rebind_pin :: "AtomNetId \<Rightarrow> AtomPinId \<Rightarrow> atom_pin option list \<Rightarrow> atom_pin option list" where
  "rebind_pin net pin store =
     (case pin of
        None \<Rightarrow> store
      | Some i \<Rightarrow>
          (case lookup store pin of
             None \<Rightarrow> store
           | Some r \<Rightarrow> store[i := Some (r\<lparr>pn_net := net\<rparr>)]))"

definition add_net ::
  "AtomNetlist \<Rightarrow> string \<Rightarrow> AtomPinId \<Rightarrow> AtomPinId list \<Rightarrow> error + (AtomNetId \<times> AtomNetlist)" where
  "add_net netlist name driver sinks =
     (if find_net netlist name \<noteq> None then Inl (DuplicateName name)
      else Inr (Some (length (net_store netlist)),
                netlist\<lparr>pin_store := fold (rebind_pin (Some (length (net_store netlist))))
                                          (driver # sinks) (pin_store netlist),
                        net_store := net_store netlist
                          @ [Some \<lparr>nt_name = name, nt_driver = driver, nt_sinks = sinks,
                                   nt_constant = False, nt_global = False\<rparr>]\<rparr>))"

section \<open>Buffer LUTs: \<^verbatim>\<open>is_buffer_lut\<close> and \<^verbatim>\<open>remove_buffer_lut\<close>\<close>

text \<open>
  The two counting loops of lines 511-524: the counter starts at zero and goes up by one at
  every pin that is valid and whose net is valid.
\<close>

definition connected_pins :: "AtomNetlist \<Rightarrow> AtomPinId list \<Rightarrow> nat" where
  "connected_pins netlist pins =
     fold (\<lambda>pin count. if pin \<noteq> None \<and> pin_net netlist pin \<noteq> None then count + 1 else count)
          pins 0"

text \<open>
  \<^verbatim>\<open>is_buffer_lut\<close> (atom_netlist_utils.c, lines 500-561). The two assertions on the shape
  of the truth table abort.
\<close>

definition is_buffer_lut :: "AtomNetlist \<Rightarrow> AtomBlockId \<Rightarrow> error + bool" where
  "is_buffer_lut netlist blk =
     (if block_type netlist blk = Some COMBINATIONAL then
        (if block_model netlist blk = Some ''names'' then
           (if length (block_input_ports netlist blk) = 1
                 \<and> length (block_output_ports netlist blk) = 1 then
              (if connected_pins netlist (block_input_pins netlist blk) = 1
                    \<and> connected_pins netlist (block_output_pins netlist blk) = 1 then
                 (if length (block_truth_table netlist blk) \<noteq> 1 then Inl AssertionFailed
                  else if length (block_truth_table netlist blk ! 0) \<noteq> 2 then Inl AssertionFailed
                  else if (block_truth_table netlist blk ! 0 ! 0 = TRUE
                            \<and> block_truth_table netlist blk ! 0 ! 1 = TRUE)
                        \<or> (block_truth_table netlist blk ! 0 ! 0 = FALSE
                            \<and> block_truth_table netlist blk ! 0 ! 1 = FALSE)
                    then Inr True
                  else Inr False)
               else Inr False)
            else Inr False)
         else Inr False)
      else Inr False)"

text \<open>
  The words of the spec (4.6) for the pins of a buffer LUT, "exactly one connected input pin
  and one connected output pin", not taken from the code: one position of the pin list holds
  a pin that is on a net, and no other position does.
\<close>

definition spec_one_connected_pin :: "AtomNetlist \<Rightarrow> AtomPinId list \<Rightarrow> bool" where
  "spec_one_connected_pin netlist pins \<longleftrightarrow>
     list_ex (\<lambda>i. pin_net netlist (pins ! i) \<noteq> None
                \<and> list_all (\<lambda>j. j = i \<or> pin_net netlist (pins ! j) = None) [0 ..< length pins])
             [0 ..< length pins]"

text \<open>
  The \<^verbatim>\<open>std::any_of\<close> of lines 640-646: the pins are visited in order and the visit stops
  at the first one on an \<open>OUTPAD\<close>; every pin visited must be a sink.
\<close>

fun po_in_sinks :: "AtomNetlist \<Rightarrow> AtomPinId list \<Rightarrow> error + bool" where
  "po_in_sinks netlist [] = Inr False"
| "po_in_sinks netlist (pin_id # rest) =
     (if pin_type netlist pin_id \<noteq> Some ATOM_SINK then Inl AssertionFailed
      else if block_type netlist (pin_block netlist pin_id) = Some OUTPAD then Inr True
      else po_in_sinks netlist rest)"

text \<open>
  Lines 670-684: the block is removed, the two assertions on what that did are checked, both
  nets are removed and the merged net is added.
\<close>

definition merge_nets ::
  "AtomNetlist \<Rightarrow> AtomBlockId \<Rightarrow> AtomNetId \<Rightarrow> AtomNetId \<Rightarrow> string \<Rightarrow> AtomPinId \<Rightarrow> AtomPinId list
     \<Rightarrow> error + AtomNetlist" where
  "merge_nets netlist blk input_net output_net new_net_name new_driver new_sinks =
     (case remove_block netlist blk of
        Inl e \<Rightarrow> Inl e
      | Inr n1 \<Rightarrow>
          if length (net_pins n1 input_net) + 1 \<noteq> length (net_pins netlist input_net)
            then Inl AssertionFailed
          else if net_driver n1 output_net \<noteq> None then Inl AssertionFailed
          else (case remove_net n1 input_net of
                  Inl e \<Rightarrow> Inl e
                | Inr n2 \<Rightarrow>
                    (case remove_net n2 output_net of
                       Inl e \<Rightarrow> Inl e
                     | Inr n3 \<Rightarrow>
                         (case add_net n3 new_net_name new_driver new_sinks of
                            Inl e \<Rightarrow> Inl e
                          | Inr (new_net, n4) \<Rightarrow> Inr n4))))"

text \<open>
  The pins and nets \<^verbatim>\<open>remove_buffer_lut\<close> names first (lines 600-627): the block's input
  pin and output pin, their nets, the driver of the input net, and the sinks of the merged
  net.
\<close>

definition buf_input_pin :: "AtomNetlist \<Rightarrow> AtomBlockId \<Rightarrow> AtomPinId" where
  "buf_input_pin netlist blk = hd (block_input_pins netlist blk)"

definition buf_output_pin :: "AtomNetlist \<Rightarrow> AtomBlockId \<Rightarrow> AtomPinId" where
  "buf_output_pin netlist blk = hd (block_output_pins netlist blk)"

definition buf_input_net :: "AtomNetlist \<Rightarrow> AtomBlockId \<Rightarrow> AtomNetId" where
  "buf_input_net netlist blk = pin_net netlist (buf_input_pin netlist blk)"

definition buf_output_net :: "AtomNetlist \<Rightarrow> AtomBlockId \<Rightarrow> AtomNetId" where
  "buf_output_net netlist blk = pin_net netlist (buf_output_pin netlist blk)"

definition buf_new_driver :: "AtomNetlist \<Rightarrow> AtomBlockId \<Rightarrow> AtomPinId" where
  "buf_new_driver netlist blk = net_driver netlist (buf_input_net netlist blk)"

definition buf_new_sinks :: "AtomNetlist \<Rightarrow> AtomBlockId \<Rightarrow> AtomPinId list" where
  "buf_new_sinks netlist blk =
     filter (\<lambda>ident. ident \<noteq> buf_input_pin netlist blk)
            (net_sinks netlist (buf_input_net netlist blk))
     @ net_sinks netlist (buf_output_net netlist blk)"

text \<open>
  \<^verbatim>\<open>remove_buffer_lut\<close> (lines 563-687). The assertion of line 629 compares unsigned
  sizes, so it is written without the subtraction. A net whose name cannot be read is the
  use of an invalid identifier.
\<close>

definition remove_buffer_lut :: "AtomNetlist \<Rightarrow> AtomBlockId \<Rightarrow> error + AtomNetlist" where
  "remove_buffer_lut netlist blk =
     (if length (block_input_pins netlist blk) \<noteq> 1 then Inl AssertionFailed
      else if length (block_output_pins netlist blk) \<noteq> 1 then Inl AssertionFailed
      else if pin_type netlist (buf_new_driver netlist blk) \<noteq> Some ATOM_DRIVER
        then Inl AssertionFailed
      else if length (buf_new_sinks netlist blk) + 1
                \<noteq> length (net_sinks netlist (buf_input_net netlist blk))
                  + length (net_sinks netlist (buf_output_net netlist blk))
        then Inl AssertionFailed
      else (case po_in_sinks netlist (buf_new_sinks netlist blk) of
              Inl e \<Rightarrow> Inl e
            | Inr po \<Rightarrow>
                if block_type netlist (pin_block netlist (buf_new_driver netlist blk)) \<noteq> Some INPAD
                     \<and> \<not> po then
                  (case net_name netlist (buf_output_net netlist blk) of
                     None \<Rightarrow> Inl InvalidId
                   | Some new_net_name \<Rightarrow>
                       merge_nets netlist blk (buf_input_net netlist blk)
                         (buf_output_net netlist blk) new_net_name
                         (buf_new_driver netlist blk) (buf_new_sinks netlist blk))
                else if block_type netlist (pin_block netlist (buf_new_driver netlist blk)) = Some INPAD
                     \<and> \<not> po then
                  (case net_name netlist (buf_input_net netlist blk) of
                     None \<Rightarrow> Inl InvalidId
                   | Some new_net_name \<Rightarrow>
                       merge_nets netlist blk (buf_input_net netlist blk)
                         (buf_output_net netlist blk) new_net_name
                         (buf_new_driver netlist blk) (buf_new_sinks netlist blk))
                else if block_type netlist (pin_block netlist (buf_new_driver netlist blk)) \<noteq> Some INPAD
                     \<and> po then
                  (case net_name netlist (buf_output_net netlist blk) of
                     None \<Rightarrow> Inl InvalidId
                   | Some new_net_name \<Rightarrow>
                       merge_nets netlist blk (buf_input_net netlist blk)
                         (buf_output_net netlist blk) new_net_name
                         (buf_new_driver netlist blk) (buf_new_sinks netlist blk))
                else Inr netlist))"


section \<open>The sweeps\<close>

text \<open>
  \<^verbatim>\<open>is_removable_block\<close>, \<^verbatim>\<open>is_removable_input\<close> and \<^verbatim>\<open>is_removable_output\<close>
  (lines 689-728): a loop that returns false at the first valid pin with a valid net.
\<close>

definition is_removable_block :: "AtomNetlist \<Rightarrow> AtomBlockId \<Rightarrow> bool" where
  "is_removable_block netlist blk_id =
     (\<not> list_ex (\<lambda>pin_id. pin_id \<noteq> None \<and> pin_net netlist pin_id \<noteq> None)
                 (block_output_pins netlist blk_id))"

definition is_removable_input :: "AtomNetlist \<Rightarrow> AtomBlockId \<Rightarrow> bool" where
  "is_removable_input netlist blk_id =
     (if block_type netlist blk_id \<noteq> Some INPAD then False
      else is_removable_block netlist blk_id)"

definition is_removable_output :: "AtomNetlist \<Rightarrow> AtomBlockId \<Rightarrow> bool" where
  "is_removable_output netlist blk_id =
     (if block_type netlist blk_id \<noteq> Some OUTPAD then False
      else \<not> list_ex (\<lambda>pin_id. pin_id \<noteq> None \<and> pin_net netlist pin_id \<noteq> None)
                      (block_input_pins netlist blk_id))"

text \<open>
  The removal loops of the sweeps. Each sweep first collects identifiers in a
  \<^verbatim>\<open>std::unordered_set\<close> and then removes them; every identifier is visited once, so the
  set has one element per identifier that qualifies. The order in which the set is walked is
  not specified by C++; here it is the order of the identifiers.
\<close>

definition remove_blocks :: "AtomBlockId list \<Rightarrow> AtomNetlist \<Rightarrow> error + AtomNetlist" where
  "remove_blocks to_remove netlist = fold_err (\<lambda>blk_id n. remove_block n blk_id) to_remove netlist"

definition remove_nets :: "AtomNetId list \<Rightarrow> AtomNetlist \<Rightarrow> error + AtomNetlist" where
  "remove_nets to_remove netlist = fold_err (\<lambda>net_id n. remove_net n net_id) to_remove netlist"

definition sweep_blocks :: "AtomNetlist \<Rightarrow> error + (nat \<times> AtomNetlist)" where
  "sweep_blocks netlist =
     (case remove_blocks
             (filter (\<lambda>blk_id. blk_id \<noteq> None
                        \<and> \<not> (block_type netlist blk_id = Some INPAD
                              \<or> block_type netlist blk_id = Some OUTPAD)
                        \<and> is_removable_block netlist blk_id)
                     (blocks netlist)) netlist of
        Inl e \<Rightarrow> Inl e
      | Inr n' \<Rightarrow>
          Inr (length (filter (\<lambda>blk_id. blk_id \<noteq> None
                        \<and> \<not> (block_type netlist blk_id = Some INPAD
                              \<or> block_type netlist blk_id = Some OUTPAD)
                        \<and> is_removable_block netlist blk_id)
                     (blocks netlist)), n'))"

definition sweep_inputs :: "AtomNetlist \<Rightarrow> error + (nat \<times> AtomNetlist)" where
  "sweep_inputs netlist =
     (case remove_blocks
             (filter (\<lambda>blk_id. blk_id \<noteq> None \<and> is_removable_input netlist blk_id)
                     (blocks netlist)) netlist of
        Inl e \<Rightarrow> Inl e
      | Inr n' \<Rightarrow>
          Inr (length (filter (\<lambda>blk_id. blk_id \<noteq> None \<and> is_removable_input netlist blk_id)
                     (blocks netlist)), n'))"

definition sweep_outputs :: "AtomNetlist \<Rightarrow> error + (nat \<times> AtomNetlist)" where
  "sweep_outputs netlist =
     (case remove_blocks
             (filter (\<lambda>blk_id. blk_id \<noteq> None \<and> is_removable_output netlist blk_id)
                     (blocks netlist)) netlist of
        Inl e \<Rightarrow> Inl e
      | Inr n' \<Rightarrow>
          Inr (length (filter (\<lambda>blk_id. blk_id \<noteq> None \<and> is_removable_output netlist blk_id)
                     (blocks netlist)), n'))"

definition sweep_nets :: "AtomNetlist \<Rightarrow> error + (nat \<times> AtomNetlist)" where
  "sweep_nets netlist =
     (case remove_nets
             (filter (\<lambda>net_id. net_id \<noteq> None
                        \<and> (net_driver netlist net_id = None
                            \<or> length (net_sinks netlist net_id) = 0))
                     (nets netlist)) netlist of
        Inl e \<Rightarrow> Inl e
      | Inr n' \<Rightarrow>
          Inr (length (filter (\<lambda>net_id. net_id \<noteq> None
                        \<and> (net_driver netlist net_id = None
                            \<or> length (net_sinks netlist net_id) = 0))
                     (nets netlist)), n'))"

text \<open>
  \<^verbatim>\<open>sweep_constant_primary_outputs\<close> (lines 730-758) removes while it walks the blocks.
  Removing a block tombstones that block only, so the walk sees the identifiers it would
  have seen at the start. The state is \<^verbatim>\<open>(removed_count, netlist)\<close>.
\<close>

definition sweep_constant_output :: "AtomBlockId \<Rightarrow> nat \<times> AtomNetlist \<Rightarrow> error + (nat \<times> AtomNetlist)" where
  "sweep_constant_output blk_id st =
     (case st of (removed_count, netlist) \<Rightarrow>
        if blk_id = None then Inr (removed_count, netlist)
        else if block_type netlist blk_id = Some OUTPAD then
          (if length (block_output_pins netlist blk_id) \<noteq> 0 then Inl AssertionFailed
           else if length (block_clock_pins netlist blk_id) \<noteq> 0 then Inl AssertionFailed
           else if \<not> list_ex (\<lambda>pin_id. pin_net netlist pin_id \<noteq> None
                                 \<and> \<not> net_is_constant netlist (pin_net netlist pin_id))
                              (block_input_pins netlist blk_id) then
             (case remove_block netlist blk_id of
                Inl e \<Rightarrow> Inl e
              | Inr n' \<Rightarrow> Inr (removed_count + 1, n'))
           else Inr (removed_count, netlist))
        else Inr (removed_count, netlist))"

definition sweep_constant_primary_outputs :: "AtomNetlist \<Rightarrow> error + (nat \<times> AtomNetlist)" where
  "sweep_constant_primary_outputs netlist =
     fold_err sweep_constant_output (blocks netlist) (0, netlist)"

text \<open>
  The counters of \<^verbatim>\<open>sweep_iterative\<close>, per pass and in total. They are \<^verbatim>\<open>size_t\<close>; no
  count exceeds the number of blocks and nets in the store, so they are natural numbers here.
\<close>

record sweep_counts =
  dangling_nets_swept :: nat
  dangling_blocks_swept :: nat
  dangling_inputs_swept :: nat
  dangling_outputs_swept :: nat
  constant_outputs_swept :: nat

text \<open>One round of the body of the \<^verbatim>\<open>do\<close> loop, up to line 802: the counts of the pass.\<close>

definition sweep_pass ::
  "AtomNetlist \<Rightarrow> bool \<Rightarrow> bool \<Rightarrow> bool \<Rightarrow> bool \<Rightarrow> error + (sweep_counts \<times> AtomNetlist)" where
  "sweep_pass netlist should_sweep_ios should_sweep_nets should_sweep_blocks
       should_sweep_constant_primary_outputs =
     (case (if should_sweep_ios then sweep_inputs netlist else Inr (0, netlist)) of
        Inl e \<Rightarrow> Inl e
      | Inr (pass_inputs, n1) \<Rightarrow>
     (case (if should_sweep_ios then sweep_outputs n1 else Inr (0, n1)) of
        Inl e \<Rightarrow> Inl e
      | Inr (pass_outputs, n2) \<Rightarrow>
     (case (if should_sweep_blocks then sweep_blocks n2 else Inr (0, n2)) of
        Inl e \<Rightarrow> Inl e
      | Inr (pass_blocks, n3) \<Rightarrow>
     (case (if should_sweep_nets then sweep_nets n3 else Inr (0, n3)) of
        Inl e \<Rightarrow> Inl e
      | Inr (pass_nets, n4) \<Rightarrow>
     (case (if should_sweep_constant_primary_outputs
            then sweep_constant_primary_outputs n4 else Inr (0, n4)) of
        Inl e \<Rightarrow> Inl e
      | Inr (pass_constant, n5) \<Rightarrow>
          Inr (\<lparr>dangling_nets_swept = pass_nets,
                dangling_blocks_swept = pass_blocks,
                dangling_inputs_swept = pass_inputs,
                dangling_outputs_swept = pass_outputs,
                constant_outputs_swept = pass_constant\<rparr>, n5))))))"

text \<open>
  Lines 804-808: the totals after a pass. The total of the inputs is increased by the
  outputs of the pass, as line 806 has it.
\<close>

definition add_pass :: "sweep_counts \<Rightarrow> sweep_counts \<Rightarrow> sweep_counts" where
  "add_pass totals pass =
     \<lparr>dangling_nets_swept = dangling_nets_swept totals + dangling_nets_swept pass,
      dangling_blocks_swept = dangling_blocks_swept totals + dangling_blocks_swept pass,
      dangling_inputs_swept = dangling_inputs_swept totals + dangling_outputs_swept pass,
      dangling_outputs_swept = dangling_outputs_swept totals + dangling_outputs_swept pass,
      constant_outputs_swept = constant_outputs_swept totals + constant_outputs_swept pass\<rparr>"

definition pass_removed :: "sweep_counts \<Rightarrow> nat" where
  "pass_removed pass =
     dangling_nets_swept pass + dangling_blocks_swept pass + dangling_inputs_swept pass
       + dangling_outputs_swept pass + constant_outputs_swept pass"

text \<open>The number of live blocks and nets: what a sweep can still remove.\<close>

definition live :: "'a option list \<Rightarrow> nat" where
  "live store = length (filter (\<lambda>x. x \<noteq> None) store)"

definition live_count :: "AtomNetlist \<Rightarrow> nat" where
  "live_count netlist = live (block_store netlist) + live (net_store netlist)"


text \<open>
  Every removal takes one live block or net away and revives none, so a pass that counts
  \<open>k\<close> removals leaves \<open>k\<close> fewer live entities. The loop of \<^verbatim>\<open>sweep_iterative\<close>
  terminates for that reason.
\<close>

lemma live_append_Cons:
  "live (xs @ y # ys) = live xs + (if y = None then 0 else 1) + live ys"
  by (simp add: live_def)

lemma live_list_update:
  assumes "i < length store"
  shows "live (store[i := y]) + (if store ! i = None then 0 else 1)
           = live store + (if y = None then 0 else 1)"
proof -
  have u: "store[i := y] = take i store @ y # drop (Suc i) store"
    using assms by (rule upd_conv_take_nth_drop)
  have "live store = live (take i store @ store ! i # drop (Suc i) store)"
    using id_take_nth_drop [OF assms] by simp
  then have s: "live store
      = live (take i store) + (if store ! i = None then 0 else 1) + live (drop (Suc i) store)"
    by (simp only: live_append_Cons)
  show ?thesis unfolding u live_append_Cons s by simp
qed

lemma live_kill:
  assumes "lookup store ident = Some x"
  shows "live (kill store ident) + 1 = live store"
proof -
  from assms obtain i where i: "ident = Some i" "i < length store" "store ! i = Some x"
    by (auto simp: lookup_def split: option.splits if_splits)
  from live_list_update [OF i(2), of None] i(3) have "live (store[i := None]) + 1 = live store"
    by simp
  with i(1) show ?thesis by (simp add: kill_def)
qed

lemma live_update_Some:
  assumes "i < length store" and "store ! i \<noteq> None"
  shows "live (store[i := Some y]) = live store"
  using live_list_update [OF assms(1), of "Some y"] assms(2) by simp

lemma detach_pin_stores:
  "block_store (detach_pin netlist pin) = block_store netlist
   \<and> live (net_store (detach_pin netlist pin)) = live (net_store netlist)"
  by (auto simp: detach_pin_def lookup_def live_update_Some split: option.splits if_splits)

lemma fold_detach_pin_stores:
  "block_store (fold (\<lambda>pin n. detach_pin n pin) pins netlist) = block_store netlist
   \<and> live (net_store (fold (\<lambda>pin n. detach_pin n pin) pins netlist)) = live (net_store netlist)"
  by (induction pins arbitrary: netlist) (simp_all add: detach_pin_stores)

lemma remove_block_live:
  assumes "remove_block netlist blk = Inr n'"
  shows "live_count n' + 1 = live_count netlist"
proof -
  from assms obtain b where b: "lookup (block_store netlist) blk = Some b"
    and n': "n' = (fold (\<lambda>pin n. detach_pin n pin) (block_pins netlist blk) netlist)
                 \<lparr>block_store := kill (block_store netlist) blk,
                  port_store := fold (\<lambda>p st. kill st p) (block_ports netlist blk)
                                     (port_store netlist)\<rparr>"
    by (auto simp: remove_block_def split: option.splits)
  show ?thesis
    using live_kill [OF b] fold_detach_pin_stores [of "block_pins netlist blk" netlist]
    by (simp add: n' live_count_def)
qed

lemma remove_net_live:
  assumes "remove_net netlist net = Inr n'"
  shows "live_count n' + 1 = live_count netlist"
proof -
  from assms obtain r where r: "lookup (net_store netlist) net = Some r"
    and n': "block_store n' = block_store netlist" "net_store n' = kill (net_store netlist) net"
    by (auto simp: remove_net_def split: option.splits)
  show ?thesis using live_kill [OF r] by (simp add: n' live_count_def)
qed

lemma remove_blocks_live:
  "remove_blocks to_remove netlist = Inr n' \<Longrightarrow> live_count n' + length to_remove = live_count netlist"
  unfolding remove_blocks_def
proof (induction to_remove arbitrary: netlist)
  case Nil
  then show ?case by simp
next
  case (Cons b bs)
  then obtain n1 where 1: "remove_block netlist b = Inr n1"
    and 2: "fold_err (\<lambda>blk_id n. remove_block n blk_id) bs n1 = Inr n'"
    by (auto split: sum.splits)
  from Cons.IH [OF 2] remove_block_live [OF 1] show ?case by simp
qed

lemma remove_nets_live:
  "remove_nets to_remove netlist = Inr n' \<Longrightarrow> live_count n' + length to_remove = live_count netlist"
  unfolding remove_nets_def
proof (induction to_remove arbitrary: netlist)
  case Nil
  then show ?case by simp
next
  case (Cons b bs)
  then obtain n1 where 1: "remove_net netlist b = Inr n1"
    and 2: "fold_err (\<lambda>net_id n. remove_net n net_id) bs n1 = Inr n'"
    by (auto split: sum.splits)
  from Cons.IH [OF 2] remove_net_live [OF 1] show ?case by simp
qed

lemma sweep_blocks_live:
  "sweep_blocks netlist = Inr (k, n') \<Longrightarrow> live_count n' + k = live_count netlist"
  by (auto simp: sweep_blocks_def split: sum.splits dest: remove_blocks_live)

lemma sweep_inputs_live:
  "sweep_inputs netlist = Inr (k, n') \<Longrightarrow> live_count n' + k = live_count netlist"
  by (auto simp: sweep_inputs_def split: sum.splits dest: remove_blocks_live)

lemma sweep_outputs_live:
  "sweep_outputs netlist = Inr (k, n') \<Longrightarrow> live_count n' + k = live_count netlist"
  by (auto simp: sweep_outputs_def split: sum.splits dest: remove_blocks_live)

lemma sweep_nets_live:
  "sweep_nets netlist = Inr (k, n') \<Longrightarrow> live_count n' + k = live_count netlist"
  by (auto simp: sweep_nets_def split: sum.splits dest: remove_nets_live)

lemma sweep_constant_output_live:
  assumes "sweep_constant_output blk_id (c, n) = Inr (c', n')"
  shows "live_count n' + c' = live_count n + c"
  using assms
  by (auto simp: sweep_constant_output_def split: if_splits sum.splits dest: remove_block_live)

lemma sweep_constant_primary_outputs_live:
  assumes "sweep_constant_primary_outputs netlist = Inr (k, n')"
  shows "live_count n' + k = live_count netlist"
proof -
  have "live_count (snd (k, n')) + fst (k, n') = live_count netlist"
    by (rule fold_err_invariant
          [OF assms [unfolded sweep_constant_primary_outputs_def],
           where P = "\<lambda>t. live_count (snd t) + fst t = live_count netlist"])
       (auto dest: sweep_constant_output_live)
  then show ?thesis by simp
qed

lemma sweep_pass_live:
  assumes "sweep_pass netlist ios nts blks cpo = Inr (pass, n')"
  shows "live_count n' + pass_removed pass = live_count netlist"
proof -
  from assms obtain p_in n1 p_out n2 p_blk n3 p_net n4 p_c where
    1: "(if ios then sweep_inputs netlist else Inr (0, netlist)) = Inr (p_in, n1)" and
    2: "(if ios then sweep_outputs n1 else Inr (0, n1)) = Inr (p_out, n2)" and
    3: "(if blks then sweep_blocks n2 else Inr (0, n2)) = Inr (p_blk, n3)" and
    4: "(if nts then sweep_nets n3 else Inr (0, n3)) = Inr (p_net, n4)" and
    5: "(if cpo then sweep_constant_primary_outputs n4 else Inr (0, n4)) = Inr (p_c, n')" and
    p: "pass = \<lparr>dangling_nets_swept = p_net, dangling_blocks_swept = p_blk,
                dangling_inputs_swept = p_in, dangling_outputs_swept = p_out,
                constant_outputs_swept = p_c\<rparr>"
    unfolding sweep_pass_def by (auto split: sum.splits prod.splits)
  from 1 have a: "live_count n1 + p_in = live_count netlist"
    by (auto split: if_splits dest: sweep_inputs_live)
  from 2 have b: "live_count n2 + p_out = live_count n1"
    by (auto split: if_splits dest: sweep_outputs_live)
  from 3 have c: "live_count n3 + p_blk = live_count n2"
    by (auto split: if_splits dest: sweep_blocks_live)
  from 4 have d: "live_count n4 + p_net = live_count n3"
    by (auto split: if_splits dest: sweep_nets_live)
  from 5 have e: "live_count n' + p_c = live_count n4"
    by (auto split: if_splits dest: sweep_constant_primary_outputs_live)
  from a b c d e show ?thesis by (simp add: p pass_removed_def)
qed

text \<open>
  The \<^verbatim>\<open>do\<close> loop of \<^verbatim>\<open>sweep_iterative\<close> (lines 780-813): a pass, the totals, and
  another round when the pass removed anything. \<^verbatim>\<open>sweep_iterative\<close> returns the sum of
  the totals; the model returns the netlist with it.
\<close>

function sweep_loop ::
  "bool \<Rightarrow> bool \<Rightarrow> bool \<Rightarrow> bool \<Rightarrow> sweep_counts \<Rightarrow> AtomNetlist \<Rightarrow> error + (sweep_counts \<times> AtomNetlist)" where
  "sweep_loop ios nts blks cpo totals netlist =
     (case sweep_pass netlist ios nts blks cpo of
        Inl e \<Rightarrow> Inl e
      | Inr (pass, n') \<Rightarrow>
          if dangling_nets_swept pass \<noteq> 0
               \<or> dangling_blocks_swept pass \<noteq> 0
               \<or> dangling_inputs_swept pass \<noteq> 0
               \<or> dangling_outputs_swept pass \<noteq> 0
               \<or> constant_outputs_swept pass \<noteq> 0
          then sweep_loop ios nts blks cpo (add_pass totals pass) n'
          else Inr (add_pass totals pass, n'))"
  by pat_completeness auto
termination
proof (relation "measure (\<lambda>(ios, nts, blks, cpo, totals, netlist). live_count netlist)")
  show "wf (measure (\<lambda>(ios, nts, blks, cpo, totals, netlist). live_count netlist))"
    by simp
next
  fix ios nts blks cpo :: bool and totals :: sweep_counts and netlist :: AtomNetlist
    and x2 :: "sweep_counts \<times> AtomNetlist" and pass n'
  assume p: "sweep_pass netlist ios nts blks cpo = Inr x2" and x: "(pass, n') = x2"
    and nz: "dangling_nets_swept pass \<noteq> 0
               \<or> dangling_blocks_swept pass \<noteq> 0
               \<or> dangling_inputs_swept pass \<noteq> 0
               \<or> dangling_outputs_swept pass \<noteq> 0
               \<or> constant_outputs_swept pass \<noteq> 0"
  from p x have "live_count n' + pass_removed pass = live_count netlist"
    by (auto dest: sweep_pass_live)
  moreover from nz have "0 < pass_removed pass"
    by (auto simp: pass_removed_def)
  ultimately show "((ios, nts, blks, cpo, add_pass totals pass, n'),
                    (ios, nts, blks, cpo, totals, netlist))
        \<in> measure (\<lambda>(ios, nts, blks, cpo, totals, netlist). live_count netlist)"
    by simp
qed

declare sweep_loop.simps [simp del]

definition sweep_iterative ::
  "AtomNetlist \<Rightarrow> bool \<Rightarrow> bool \<Rightarrow> bool \<Rightarrow> bool \<Rightarrow> error + (nat \<times> AtomNetlist)" where
  "sweep_iterative netlist should_sweep_ios should_sweep_nets should_sweep_blocks
       should_sweep_constant_primary_outputs =
     (case sweep_loop should_sweep_ios should_sweep_nets should_sweep_blocks
             should_sweep_constant_primary_outputs
             \<lparr>dangling_nets_swept = 0, dangling_blocks_swept = 0, dangling_inputs_swept = 0,
              dangling_outputs_swept = 0, constant_outputs_swept = 0\<rparr> netlist of
        Inl e \<Rightarrow> Inl e
      | Inr (totals, n') \<Rightarrow>
          Inr (dangling_nets_swept totals + dangling_blocks_swept totals
                 + dangling_inputs_swept totals + dangling_outputs_swept totals
                 + constant_outputs_swept totals, n'))"


text \<open>
  A netlist for the examples of the sweeps: one input pad \<^verbatim>\<open>a\<close> whose output pin is
  not connected to any net.
\<close>

definition dangling_input_netlist :: AtomNetlist where
  "dangling_input_netlist =
     \<lparr>block_store = [Some \<lparr>blk_name = ''a'', blk_kind = INPAD, blk_model = ''input'',
                             blk_truth_table = []\<rparr>],
      port_store = [Some \<lparr>prt_block = Some 0, prt_dir = OUTPUT, prt_name = ''inpad'',
                            prt_width = 1\<rparr>],
      pin_store = [Some \<lparr>pn_port = Some 0, pn_bit = 0, pn_type = ATOM_DRIVER, pn_net = None,
                          pn_constant = False\<rparr>],
      net_store = []\<rparr>"

definition swept_netlist :: AtomNetlist where
  "swept_netlist =
     \<lparr>block_store = [None], port_store = [None], pin_store = [None], net_store = []\<rparr>"

definition no_removals :: sweep_counts where
  "no_removals =
     \<lparr>dangling_nets_swept = 0, dangling_blocks_swept = 0, dangling_inputs_swept = 0,
      dangling_outputs_swept = 0, constant_outputs_swept = 0\<rparr>"


text \<open>
  A second netlist: the input pad \<^verbatim>\<open>a\<close> drives net \<^verbatim>\<open>n\<close>, which has no sinks.
\<close>

definition dangling_net_netlist :: AtomNetlist where
  "dangling_net_netlist =
     \<lparr>block_store = [Some \<lparr>blk_name = ''a'', blk_kind = INPAD, blk_model = ''input'',
                             blk_truth_table = []\<rparr>],
      port_store = [Some \<lparr>prt_block = Some 0, prt_dir = OUTPUT, prt_name = ''inpad'',
                            prt_width = 1\<rparr>],
      pin_store = [Some \<lparr>pn_port = Some 0, pn_bit = 0, pn_type = ATOM_DRIVER, pn_net = Some 0,
                          pn_constant = False\<rparr>],
      net_store = [Some \<lparr>nt_name = ''n'', nt_driver = Some 0, nt_sinks = [],
                           nt_constant = False, nt_global = False\<rparr>]\<rparr>"

definition all_swept_netlist :: AtomNetlist where
  "all_swept_netlist =
     \<lparr>block_store = [None], port_store = [None], pin_store = [None], net_store = [None]\<rparr>"


text \<open>
  Netlists for the examples of the buffer LUT. In all of them block 0 is the input pad
  \<^verbatim>\<open>x\<close> driving net \<^verbatim>\<open>x\<close> from pin 0, and block 1 is the buffer \<^verbatim>\<open>b\<close> with input
  pin 1 on net \<^verbatim>\<open>x\<close> and output pin 2 driving net \<^verbatim>\<open>y\<close>.
\<close>

definition pad_x :: atom_block where
  "pad_x = \<lparr>blk_name = ''x'', blk_kind = INPAD, blk_model = ''input'', blk_truth_table = []\<rparr>"

definition buf_b :: atom_block where
  "buf_b = \<lparr>blk_name = ''b'', blk_kind = COMBINATIONAL, blk_model = ''names'',
            blk_truth_table = [[TRUE, TRUE]]\<rparr>"

definition pad_y :: atom_block where
  "pad_y = \<lparr>blk_name = ''out:y'', blk_kind = OUTPAD, blk_model = ''output'',
            blk_truth_table = []\<rparr>"

definition lut_l :: atom_block where
  "lut_l = \<lparr>blk_name = ''l'', blk_kind = COMBINATIONAL, blk_model = ''names'',
            blk_truth_table = [[TRUE, FALSE]]\<rparr>"

definition a_port :: "nat \<Rightarrow> PortDir \<Rightarrow> atom_port" where
  "a_port b d = \<lparr>prt_block = Some b, prt_dir = d, prt_name = ''p'', prt_width = 1\<rparr>"

definition a_pin :: "nat \<Rightarrow> AtomPinType \<Rightarrow> AtomNetId \<Rightarrow> atom_pin" where
  "a_pin p t n = \<lparr>pn_port = Some p, pn_bit = 0, pn_type = t, pn_net = n, pn_constant = False\<rparr>"

definition a_net :: "string \<Rightarrow> nat \<Rightarrow> nat list \<Rightarrow> atom_net" where
  "a_net name d sinks = \<lparr>nt_name = name, nt_driver = Some d, nt_sinks = map Some sinks,
                          nt_constant = False, nt_global = False\<rparr>"

text \<open>Input pad \<^verbatim>\<open>x\<close>, buffer \<^verbatim>\<open>b\<close>, output pad \<^verbatim>\<open>out:y\<close> on net \<^verbatim>\<open>y\<close>.\<close>

definition pi_buf_po :: AtomNetlist where
  "pi_buf_po =
     \<lparr>block_store = [Some pad_x, Some buf_b, Some pad_y],
      port_store = [Some (a_port 0 OUTPUT), Some (a_port 1 INPUT), Some (a_port 1 OUTPUT),
                    Some (a_port 2 INPUT)],
      pin_store = [Some (a_pin 0 ATOM_DRIVER (Some 0)), Some (a_pin 1 ATOM_SINK (Some 0)),
                   Some (a_pin 2 ATOM_DRIVER (Some 1)), Some (a_pin 3 ATOM_SINK (Some 1))],
      net_store = [Some (a_net ''x'' 0 [1]), Some (a_net ''y'' 2 [3])]\<rparr>"

text \<open>
  Input pad \<^verbatim>\<open>x\<close> feeding the buffer and, directly, the output pad \<^verbatim>\<open>out:y\<close> (pin
  3, on net \<^verbatim>\<open>x\<close>); the buffer's net \<^verbatim>\<open>y\<close> feeds the LUT \<^verbatim>\<open>l\<close> (pin 4).
\<close>

definition pi_po_and_buf :: AtomNetlist where
  "pi_po_and_buf =
     \<lparr>block_store = [Some pad_x, Some buf_b, Some pad_y, Some lut_l],
      port_store = [Some (a_port 0 OUTPUT), Some (a_port 1 INPUT), Some (a_port 1 OUTPUT),
                    Some (a_port 2 INPUT), Some (a_port 3 INPUT)],
      pin_store = [Some (a_pin 0 ATOM_DRIVER (Some 0)), Some (a_pin 1 ATOM_SINK (Some 0)),
                   Some (a_pin 2 ATOM_DRIVER (Some 1)), Some (a_pin 3 ATOM_SINK (Some 0)),
                   Some (a_pin 4 ATOM_SINK (Some 1))],
      net_store = [Some (a_net ''x'' 0 [1, 3]), Some (a_net ''y'' 2 [4])]\<rparr>"

text \<open>Input pad \<^verbatim>\<open>x\<close>, buffer \<^verbatim>\<open>b\<close>, and the LUT \<^verbatim>\<open>l\<close> on net \<^verbatim>\<open>y\<close> (pin 3).\<close>

definition pi_buf_lut :: AtomNetlist where
  "pi_buf_lut =
     \<lparr>block_store = [Some pad_x, Some buf_b, Some lut_l],
      port_store = [Some (a_port 0 OUTPUT), Some (a_port 1 INPUT), Some (a_port 1 OUTPUT),
                    Some (a_port 2 INPUT)],
      pin_store = [Some (a_pin 0 ATOM_DRIVER (Some 0)), Some (a_pin 1 ATOM_SINK (Some 0)),
                   Some (a_pin 2 ATOM_DRIVER (Some 1)), Some (a_pin 3 ATOM_SINK (Some 1))],
      net_store = [Some (a_net ''x'' 0 [1]), Some (a_net ''y'' 2 [3])]\<rparr>"

definition pi_buf_lut_merged :: AtomNetlist where
  "pi_buf_lut_merged =
     \<lparr>block_store = [Some pad_x, None, Some lut_l],
      port_store = [Some (a_port 0 OUTPUT), None, None, Some (a_port 2 INPUT)],
      pin_store = [Some (a_pin 0 ATOM_DRIVER (Some 2)), None, None,
                   Some (a_pin 3 ATOM_SINK (Some 2))],
      net_store = [None, None, Some (a_net ''x'' 0 [3])]\<rparr>"


text \<open>
  Two more buffers between the pads \<^verbatim>\<open>x\<close> and \<^verbatim>\<open>out:y\<close>. In the first the input
  port of \<^verbatim>\<open>b\<close> has a second pin, pin 4, that is on no net. In the second the only input
  pin of \<^verbatim>\<open>b\<close> is on no net, and net \<^verbatim>\<open>x\<close> has no sink.
\<close>

definition buf_spare_input :: AtomNetlist where
  "buf_spare_input =
     \<lparr>block_store = [Some pad_x, Some buf_b, Some pad_y],
      port_store = [Some (a_port 0 OUTPUT), Some (a_port 1 INPUT), Some (a_port 1 OUTPUT),
                    Some (a_port 2 INPUT)],
      pin_store = [Some (a_pin 0 ATOM_DRIVER (Some 0)), Some (a_pin 1 ATOM_SINK (Some 0)),
                   Some (a_pin 2 ATOM_DRIVER (Some 1)), Some (a_pin 3 ATOM_SINK (Some 1)),
                   Some (a_pin 1 ATOM_SINK None)],
      net_store = [Some (a_net ''x'' 0 [1]), Some (a_net ''y'' 2 [3])]\<rparr>"

definition buf_open_input :: AtomNetlist where
  "buf_open_input =
     \<lparr>block_store = [Some pad_x, Some buf_b, Some pad_y],
      port_store = [Some (a_port 0 OUTPUT), Some (a_port 1 INPUT), Some (a_port 1 OUTPUT),
                    Some (a_port 2 INPUT)],
      pin_store = [Some (a_pin 0 ATOM_DRIVER (Some 0)), Some (a_pin 1 ATOM_SINK None),
                   Some (a_pin 2 ATOM_DRIVER (Some 1)), Some (a_pin 3 ATOM_SINK (Some 1))],
      net_store = [Some (a_net ''x'' 0 []), Some (a_net ''y'' 2 [3])]\<rparr>"


text \<open>
  What the assertions of \<^verbatim>\<open>remove_buffer_lut\<close> before line 649 ask of the netlist, for
  a buffer in a store that keeps its invariants (spec, 3): the buffer's two ports are one bit
  wide, the input net has a driver pin of type driver, the buffer's input pin is among the
  sinks of its net once, and the sinks of both nets are pins of type sink.
\<close>

definition buffer_well_formed :: "AtomNetlist \<Rightarrow> AtomBlockId \<Rightarrow> bool" where
  "buffer_well_formed netlist blk \<longleftrightarrow>
     length (block_input_pins netlist blk) = 1
     \<and> length (block_output_pins netlist blk) = 1
     \<and> pin_type netlist (buf_new_driver netlist blk) = Some ATOM_DRIVER
     \<and> count_list (net_sinks netlist (buf_input_net netlist blk)) (buf_input_pin netlist blk) = 1
     \<and> list_all (\<lambda>s. pin_type netlist s = Some ATOM_SINK) (buf_new_sinks netlist blk)"


section \<open>Truth tables and LUT masks\<close>

text \<open>
  \<^verbatim>\<open>truth_table_encodes_on_set\<close> (atom_netlist_utils.c, lines 934-954): the output value
  is the last value of the first row.
\<close>

definition truth_table_encodes_on_set :: "TruthTable \<Rightarrow> error + bool" where
  "truth_table_encodes_on_set truth_table =
     (if truth_table = [] then Inr True
      else if \<not> length (truth_table ! 0) > 0 then Inl AssertionFailed
      else (case truth_table ! 0 ! (length (truth_table ! 0) - 1) of
              TRUE \<Rightarrow> Inr True
            | FALSE \<Rightarrow> Inr False
            | DONT_CARE \<Rightarrow> Inl UnrecognizedOutputValue
            | UNKNOWN \<Rightarrow> Inl UnrecognizedOutputValue))"

text \<open>
  The second loop of \<^verbatim>\<open>cube_to_minterms_recurr\<close> (lines 1068-1076), at position \<open>i\<close>
  of the cube with the rest of the cube still to read: \<^verbatim>\<open>minterm += (1 << i)\<close> where the
  cube is true. \<^verbatim>\<open>1 << i\<close> is a shift of an \<^verbatim>\<open>int\<close>: it is \<open>2 ^ i\<close> for
  \<open>i < 31\<close>. At \<open>i = 31\<close> the value is not an \<^verbatim>\<open>int\<close>; the compilers in use give
  \<^verbatim>\<open>INT_MIN\<close>, which the addition to a \<^verbatim>\<open>size_t\<close> makes \<open>2 ^ 64 - 2 ^ 31\<close>, and
  from 32 on the shift is undefined. The model stops at \<open>i = 31\<close> already: a minterm
  with that summand is not below the size of any mask, so \<^verbatim>\<open>truth_table_to_lut_mask\<close>
  aborts on it at the assertion of line 1023, and no mask that the code returns is lost.
\<close>

fun minterm_loop :: "LogicValue list \<Rightarrow> nat \<Rightarrow> nat \<Rightarrow> error + nat" where
  "minterm_loop [] i minterm = Inr minterm"
| "minterm_loop (c # rest) i minterm =
     (if c = TRUE then
        (if i < 31 then minterm_loop rest (Suc i) (minterm + 2 ^ i) else Inl UndefinedShift)
      else minterm_loop rest (Suc i) minterm)"

lemma count_list_update_less:
  "i < length cube \<Longrightarrow> cube ! i = DONT_CARE \<Longrightarrow> v \<noteq> DONT_CARE
     \<Longrightarrow> count_list (cube[i := v]) DONT_CARE < count_list cube DONT_CARE"
proof (induction cube arbitrary: i)
  case Nil
  then show ?case by simp
next
  case (Cons c cube)
  then show ?case by (cases i) auto
qed

text \<open>
  \<^verbatim>\<open>cube_to_minterms_recurr\<close> (lines 1040-1081) and its first loop, \<open>expand_loop\<close>, at
  position \<open>i\<close> with the flag \<^verbatim>\<open>cube_has_dc\<close>. The loop does not stop at the first
  don't-care: every don't-care of the cube is expanded in turn, each time for both values.
  The vector \<^verbatim>\<open>minterms\<close> is passed by reference; here it is passed in and returned.
\<close>

function cube_to_minterms_recurr :: "LogicValue list \<Rightarrow> nat list \<Rightarrow> error + nat list"
  and expand_loop :: "LogicValue list \<Rightarrow> nat \<Rightarrow> bool \<Rightarrow> nat list \<Rightarrow> error + (bool \<times> nat list)" where
  "cube_to_minterms_recurr cube minterms =
     (case expand_loop cube 0 False minterms of
        Inl e \<Rightarrow> Inl e
      | Inr (cube_has_dc, minterms') \<Rightarrow>
          if \<not> cube_has_dc then
            (case minterm_loop cube 0 0 of
               Inl e \<Rightarrow> Inl e
             | Inr minterm \<Rightarrow> Inr (minterms' @ [minterm]))
          else Inr minterms')"
| "expand_loop cube i cube_has_dc minterms =
     (if i < length cube then
        (if cube ! i = DONT_CARE then
           (case cube_to_minterms_recurr (cube[i := TRUE]) minterms of
              Inl e \<Rightarrow> Inl e
            | Inr minterms1 \<Rightarrow>
                (case cube_to_minterms_recurr (cube[i := FALSE]) minterms1 of
                   Inl e \<Rightarrow> Inl e
                 | Inr minterms2 \<Rightarrow> expand_loop cube (Suc i) True minterms2))
         else if cube ! i = TRUE \<or> cube ! i = FALSE
           then expand_loop cube (Suc i) cube_has_dc minterms
         else Inl AssertionFailed)
      else Inr (cube_has_dc, minterms))"
  by pat_completeness auto
termination
  by (relation "inv_image (less_than <*lex*> less_than)
        (\<lambda>x. case x of
           Inl (cube, minterms) \<Rightarrow> (count_list cube DONT_CARE, Suc (length cube))
         | Inr (cube, i, cube_has_dc, minterms) \<Rightarrow> (count_list cube DONT_CARE, length cube - i))")
     (auto simp: count_list_update_less)

declare cube_to_minterms_recurr.simps [simp del]
declare expand_loop.simps [simp del]

definition cube_to_minterms :: "LogicValue list \<Rightarrow> error + nat list" where
  "cube_to_minterms cube = cube_to_minterms_recurr cube []"

text \<open>
  \<^verbatim>\<open>truth_table_to_lut_mask\<close> (lines 997-1032). \<open>mark_minterm\<close> is the body of the
  inner loop and \<open>mark_row\<close> the body of the outer one; the cube of a row is the row
  without its last value, and an empty row has none. \<^verbatim>\<open>std::pow(2, num_inputs)\<close> is
  converted to \<^verbatim>\<open>size_t\<close>, which is defined below \<open>2 ^ 64\<close>.
\<close>

definition mark_minterm :: "bool \<Rightarrow> nat \<Rightarrow> LogicValue list \<Rightarrow> error + LogicValue list" where
  "mark_minterm on_set minterm lut_mask =
     (if \<not> minterm < length lut_mask then Inl AssertionFailed
      else Inr (lut_mask[minterm := (if on_set then TRUE else FALSE)]))"

definition mark_row :: "bool \<Rightarrow> nat \<Rightarrow> LogicValue list \<Rightarrow> LogicValue list \<Rightarrow> error + LogicValue list" where
  "mark_row on_set num_inputs row lut_mask =
     (if row = [] then Inl OutOfBounds
      else if length (butlast row) \<noteq> num_inputs then Inl AssertionFailed
      else (case cube_to_minterms (butlast row) of
              Inl e \<Rightarrow> Inl e
            | Inr minterms \<Rightarrow> fold_err (mark_minterm on_set) minterms lut_mask))"

definition truth_table_to_lut_mask :: "TruthTable \<Rightarrow> nat \<Rightarrow> error + LogicValue list" where
  "truth_table_to_lut_mask truth_table num_inputs =
     (case truth_table_encodes_on_set truth_table of
        Inl e \<Rightarrow> Inl e
      | Inr on_set \<Rightarrow>
          if \<not> num_inputs < 64 then Inl UndefinedConversion
          else fold_err (mark_row on_set num_inputs) truth_table
                 (replicate (2 ^ num_inputs) (if on_set then FALSE else TRUE)))"

text \<open>
  What the claims call a minterm covered by a cube: input \<open>i\<close> of the cube is bit \<open>i\<close>
  of the minterm, and a position of the cube admits the bit when it is a don't-care, or true
  with the bit set, or false with the bit clear.
\<close>

fun covers :: "LogicValue list \<Rightarrow> nat \<Rightarrow> bool" where
  "covers [] m = True"
| "covers (c # cube) m =
     ((c = DONT_CARE \<or> (c = TRUE \<and> odd m) \<or> (c = FALSE \<and> even m)) \<and> covers cube (m div 2))"

definition covered :: "TruthTable \<Rightarrow> nat \<Rightarrow> bool" where
  "covered truth_table m = list_ex (\<lambda>row. covers (butlast row) m) truth_table"

text \<open>
  A table that \<^verbatim>\<open>truth_table_to_lut_mask\<close> accepts for \<open>num_inputs\<close> inputs: every row
  has \<open>num_inputs\<close> input values, none of them unknown, and an output value; the output
  value of the first row is true or false; and the shifts stay defined.
\<close>

definition well_formed_table :: "TruthTable \<Rightarrow> nat \<Rightarrow> bool" where
  "well_formed_table truth_table num_inputs \<longleftrightarrow>
     num_inputs \<le> 31
     \<and> list_all (\<lambda>row. length row = Suc num_inputs
                      \<and> list_all (\<lambda>v. v \<noteq> UNKNOWN) (butlast row)) truth_table
     \<and> (truth_table = [] \<or> last (hd truth_table) = TRUE \<or> last (hd truth_table) = FALSE)"


text \<open>The number a cube without don't-cares stands for: bit \<open>i\<close> is set where input \<open>i\<close> is true.\<close>

fun cube_value :: "LogicValue list \<Rightarrow> nat" where
  "cube_value [] = 0"
| "cube_value (c # cube) = (if c = TRUE then 1 else 0) + 2 * cube_value cube"


text \<open>The minterms of a cube: the numbers below \<open>2 ^ length cube\<close> that the cube covers.\<close>

definition minterms_of :: "LogicValue list \<Rightarrow> nat set" where
  "minterms_of cube = {m. covers cube m \<and> m < 2 ^ length cube}"


definition example_table :: TruthTable where
  "example_table = [[TRUE, DONT_CARE, TRUE], [FALSE, FALSE, TRUE]]"


section \<open>The transitive fill of \<^verbatim>\<open>pb_route\<close>\<close>

text \<open>Line 949: \<^verbatim>\<open>pb_route[ipin].atom_net_id = pb_route[driver].atom_net_id\<close>.\<close>

definition copy_atom_net :: "t_pb_route list \<Rightarrow> int \<Rightarrow> int \<Rightarrow> t_pb_route list" where
  "copy_atom_net route ipin driver =
     route[nat ipin := (route ! nat ipin)\<lparr>atom_net_id := atom_net_id (route ! nat driver)\<rparr>]"

text \<open>
  \<^verbatim>\<open>load_atom_index_for_pb_pin\<close> (read_netlist.c, lines 939-950). The recursion follows
  \<^verbatim>\<open>prev_pb_pin_id\<close> and nothing in the function bounds it, so the result is an option:
  \<open>None\<close> is a call that never returns. The array is updated in place; here it is
  returned. An index outside the array is \<open>OutOfBounds\<close>.
\<close>

partial_function (option) load_atom_index_for_pb_pin ::
  "t_pb_route list \<Rightarrow> int \<Rightarrow> (error + t_pb_route list) option" where
  "load_atom_index_for_pb_pin route ipin =
     (if ipin < 0 \<or> \<not> nat ipin < length route then Some (Inl OutOfBounds)
      else if prev_pb_pin_id (route ! nat ipin) = OPEN then Some (Inl AssertionFailed)
      else if atom_net_id (route ! nat ipin) \<noteq> None then Some (Inl AssertionFailed)
      else if prev_pb_pin_id (route ! nat ipin) < 0
              \<or> \<not> nat (prev_pb_pin_id (route ! nat ipin)) < length route
        then Some (Inl OutOfBounds)
      else if atom_net_id (route ! nat (prev_pb_pin_id (route ! nat ipin))) = None then
        Option.bind (load_atom_index_for_pb_pin route (prev_pb_pin_id (route ! nat ipin)))
          (\<lambda>r. case r of
                  Inl e \<Rightarrow> Some (Inl e)
                | Inr route1 \<Rightarrow>
                    Some (Inr (copy_atom_net route1 ipin (prev_pb_pin_id (route ! nat ipin)))))
      else Some (Inr (copy_atom_net route ipin (prev_pb_pin_id (route ! nat ipin)))))"

declare load_atom_index_for_pb_pin.simps [code]

text \<open>
  \<^verbatim>\<open>load_interal_to_block_net_nums\<close> (lines 929-937): the loop over the pins, as a
  recursion over the indices still to visit. \<open>total_pb_pins\<close> is
  \<^verbatim>\<open>type->pb_graph_head->total_pb_pins\<close>, the size \<^verbatim>\<open>alloc_pb_route\<close> gave the array.
\<close>

fun fill_pins :: "nat list \<Rightarrow> t_pb_route list \<Rightarrow> (error + t_pb_route list) option" where
  "fill_pins [] route = Some (Inr route)"
| "fill_pins (i # rest) route =
     (if \<not> i < length route then Some (Inl OutOfBounds)
      else if prev_pb_pin_id (route ! i) \<noteq> OPEN \<and> atom_net_id (route ! i) = None then
        (case load_atom_index_for_pb_pin route (int i) of
           None \<Rightarrow> None
         | Some (Inl e) \<Rightarrow> Some (Inl e)
         | Some (Inr route1) \<Rightarrow> fill_pins rest route1)
      else fill_pins rest route)"

definition load_interal_to_block_net_nums ::
  "nat \<Rightarrow> t_pb_route list \<Rightarrow> (error + t_pb_route list) option" where
  "load_interal_to_block_net_nums total_pb_pins route = fill_pins [0 ..< total_pb_pins] route"

text \<open>
  The graph of \<^verbatim>\<open>prev_pb_pin_id\<close>: an edge from the driving pin to the pin it drives, for
  every entry whose driver is a pin.
\<close>

definition prev_edges :: "t_pb_route list \<Rightarrow> (nat \<times> nat) set" where
  "prev_edges route =
     {(nat (prev_pb_pin_id (route ! i)), i) | i. i < length route \<and> 0 \<le> prev_pb_pin_id (route ! i)}"

text \<open>
  The table as \<^verbatim>\<open>processPorts\<close> leaves it: \<^verbatim>\<open>alloc_pb_route\<close> starts every entry with
  no net and no driver, and \<^verbatim>\<open>processPorts\<close> writes to a pin either its net (the inputs
  and clocks of the top-level pb, the outputs of a primitive) or its driver (every other pin),
  so no entry has both.
\<close>

definition as_ingested :: "t_pb_route list \<Rightarrow> bool" where
  "as_ingested route =
     list_all (\<lambda>e. prev_pb_pin_id e \<noteq> OPEN \<longrightarrow> atom_net_id e = None) route"

text \<open>
  The invariant of the spec (3) for one table: an entry that has a driver and a net carries
  the net of its driver.
\<close>

definition nets_follow_prev :: "t_pb_route list \<Rightarrow> bool" where
  "nets_follow_prev route \<longleftrightarrow>
     (\<forall>k < length route.
        prev_pb_pin_id (route ! k) \<noteq> OPEN \<and> atom_net_id (route ! k) \<noteq> None \<longrightarrow>
          0 \<le> prev_pb_pin_id (route ! k)
          \<and> nat (prev_pb_pin_id (route ! k)) < length route
          \<and> atom_net_id (route ! nat (prev_pb_pin_id (route ! k))) = atom_net_id (route ! k))"

definition route_entry :: "AtomNetId \<Rightarrow> int \<Rightarrow> t_pb_route" where
  "route_entry n p = \<lparr>atom_net_id = n, prev_pb_pin_id = p\<rparr>"

text \<open>
  A table for the examples: pin 0 carries net 7, pin 1 is driven by pin 0, pin 2 by pin 1,
  and pin 3 is unused.
\<close>

definition example_route :: "t_pb_route list" where
  "example_route =
     [route_entry (Some 7) OPEN, route_entry None 0, route_entry None 1, route_entry None OPEN]"

definition example_route_filled :: "t_pb_route list" where
  "example_route_filled =
     [route_entry (Some 7) OPEN, route_entry (Some 7) 0, route_entry (Some 7) 1,
      route_entry None OPEN]"


text \<open>
  What a run of the fill keeps of the table: its length, every \<^verbatim>\<open>prev_pb_pin_id\<close>, every
  net that was already set, and the invariant.
\<close>

definition fill_post :: "t_pb_route list \<Rightarrow> t_pb_route list \<Rightarrow> bool" where
  "fill_post route route' \<longleftrightarrow>
     length route' = length route
     \<and> (\<forall>k<length route. prev_pb_pin_id (route' ! k) = prev_pb_pin_id (route ! k))
     \<and> (\<forall>k<length route. atom_net_id (route ! k) \<noteq> None
           \<longrightarrow> atom_net_id (route' ! k) = atom_net_id (route ! k))
     \<and> (nets_follow_prev route \<longrightarrow> nets_follow_prev route')"


section \<open>The constant-generator marker\<close>

text \<open>
  What \<^verbatim>\<open>mark_constant_generators_rec\<close> reads of a \<^verbatim>\<open>t_pb\<close>: its name (\<open>None\<close> is
  \<^verbatim>\<open>NULL\<close>, an unused slot), the name and the \<^verbatim>\<open>blif_model\<close> of its \<^verbatim>\<open>pb_type\<close>
  (a \<^verbatim>\<open>blif_model\<close> marks a primitive), the \<^verbatim>\<open>pin_count_in_cluster\<close> of the input, clock
  and output pins of its \<^verbatim>\<open>pb_graph_node\<close>, port by port, and \<^verbatim>\<open>child_pbs[i][j]\<close> for
  the children of its mode.
\<close>

datatype t_pb =
  Pb (pb_name: "string option") (pb_type_name: string) (pb_blif_model: "string option")
     (pb_input_pins: "int list list") (pb_clock_pins: "int list list")
     (pb_output_pins: "int list list") (child_pbs: "t_pb list list")

text \<open>
  The loops of lines 886-901 over the pins of one kind: they stop at the first pin that
  carries a net, and no pin after it is read.
\<close>

fun all_unconnected :: "t_pb_route list \<Rightarrow> int list \<Rightarrow> error + bool" where
  "all_unconnected route [] = Inr True"
| "all_unconnected route (cluster_pin_idx # rest) =
     (if cluster_pin_idx < 0 \<or> \<not> nat cluster_pin_idx < length route then Inl OutOfBounds
      else if atom_net_id (route ! nat cluster_pin_idx) \<noteq> None then Inr False
      else all_unconnected route rest)"

text \<open>The body of the loop of lines 904-913 for one output pin.\<close>

definition check_constant_output ::
  "AtomNetlist \<Rightarrow> t_pb_route list \<Rightarrow> int \<Rightarrow> unit \<Rightarrow> error + unit" where
  "check_constant_output atom_nl route cluster_pin_idx u =
     (if cluster_pin_idx < 0 \<or> \<not> nat cluster_pin_idx < length route then Inl OutOfBounds
      else if atom_net_id (route ! nat cluster_pin_idx) \<noteq> None then
        (if pin_is_constant atom_nl
              (net_driver atom_nl (atom_net_id (route ! nat cluster_pin_idx)))
         then Inr () else Inl AssertionFailed)
      else Inr ())"

text \<open>
  \<^verbatim>\<open>mark_constant_generators_rec\<close> (read_netlist.c, lines 871-916), with the two loops
  over the children as functions of their own. The function returns nothing; what it reports
  with \<^verbatim>\<open>printf_info\<close>, the names of the constant generators in the order found, is
  returned here.
\<close>

fun mark_constant_generators_rec ::
    "AtomNetlist \<Rightarrow> t_pb_route list \<Rightarrow> t_pb \<Rightarrow> string option list \<Rightarrow> error + string option list"
  and mark_children ::
    "AtomNetlist \<Rightarrow> t_pb_route list \<Rightarrow> t_pb list \<Rightarrow> string option list \<Rightarrow> error + string option list"
  and mark_children_of_types ::
    "AtomNetlist \<Rightarrow> t_pb_route list \<Rightarrow> t_pb list list \<Rightarrow> string option list
       \<Rightarrow> error + string option list" where
  "mark_constant_generators_rec atom_nl route (Pb name type_name blif ins clks outs children) reported =
     (if blif = None then mark_children_of_types atom_nl route children reported
      else if type_name \<noteq> ''inpad'' then
        (case all_unconnected route (concat ins) of
           Inl e \<Rightarrow> Inl e
         | Inr no_input \<Rightarrow>
             (case (if no_input then all_unconnected route (concat clks) else Inr False) of
                Inl e \<Rightarrow> Inl e
              | Inr const_gen \<Rightarrow>
                  if const_gen then
                    (case fold_err (check_constant_output atom_nl route) (concat outs) () of
                       Inl e \<Rightarrow> Inl e
                     | Inr u \<Rightarrow> Inr (reported @ [name]))
                  else Inr reported))
      else Inr reported)"
| "mark_children atom_nl route [] reported = Inr reported"
| "mark_children atom_nl route (child # rest) reported =
     (if pb_name child \<noteq> None then
        (case mark_constant_generators_rec atom_nl route child reported of
           Inl e \<Rightarrow> Inl e
         | Inr reported' \<Rightarrow> mark_children atom_nl route rest reported')
      else mark_children atom_nl route rest reported)"
| "mark_children_of_types atom_nl route [] reported = Inr reported"
| "mark_children_of_types atom_nl route (row # rest) reported =
     (case mark_children atom_nl route row reported of
        Inl e \<Rightarrow> Inl e
      | Inr reported' \<Rightarrow> mark_children_of_types atom_nl route rest reported')"

text \<open>
  The primitives the marker reaches from a pb: the pb itself when it is a primitive, else the
  primitives reached from its named children.
\<close>

fun leaves :: "t_pb \<Rightarrow> t_pb list"
  and leaves_of_children :: "t_pb list \<Rightarrow> t_pb list"
  and leaves_of_types :: "t_pb list list \<Rightarrow> t_pb list" where
  "leaves (Pb name type_name blif ins clks outs children) =
     (if blif = None then leaves_of_types children
      else [Pb name type_name blif ins clks outs children])"
| "leaves_of_children [] = []"
| "leaves_of_children (child # rest) =
     (if pb_name child \<noteq> None then leaves child else []) @ leaves_of_children rest"
| "leaves_of_types [] = []"
| "leaves_of_types (row # rest) = leaves_of_children row @ leaves_of_types rest"

text \<open>
  The constant generators of the spec (4.5): a primitive that is not a primary input and none
  of whose input pins and clock pins carries an atom net in \<^verbatim>\<open>pb_route\<close>. Their outputs
  are in order when the driver of every net an output pin carries is marked constant.
\<close>

definition unconnected :: "t_pb_route list \<Rightarrow> int \<Rightarrow> bool" where
  "unconnected route cluster_pin_idx = (atom_net_id (route ! nat cluster_pin_idx) = None)"

definition is_constant_generator :: "t_pb_route list \<Rightarrow> t_pb \<Rightarrow> bool" where
  "is_constant_generator route pb \<longleftrightarrow>
     pb_type_name pb \<noteq> ''inpad''
     \<and> list_all (unconnected route) (concat (pb_input_pins pb))
     \<and> list_all (unconnected route) (concat (pb_clock_pins pb))"

definition output_driver_constant :: "AtomNetlist \<Rightarrow> t_pb_route list \<Rightarrow> int \<Rightarrow> bool" where
  "output_driver_constant atom_nl route cluster_pin_idx \<longleftrightarrow>
     unconnected route cluster_pin_idx
     \<or> pin_is_constant atom_nl (net_driver atom_nl (atom_net_id (route ! nat cluster_pin_idx)))"

definition outputs_constant :: "AtomNetlist \<Rightarrow> t_pb_route list \<Rightarrow> t_pb \<Rightarrow> bool" where
  "outputs_constant atom_nl route pb =
     list_all (output_driver_constant atom_nl route) (concat (pb_output_pins pb))"

definition generators_checked :: "AtomNetlist \<Rightarrow> t_pb_route list \<Rightarrow> t_pb list \<Rightarrow> bool" where
  "generators_checked atom_nl route pbs =
     list_all (outputs_constant atom_nl route) (filter (is_constant_generator route) pbs)"

text \<open>
  A cluster for the examples: pin 0 is the input of a LUT and carries no net, pin 1 is its
  output and carries net 0, whose driver, pin 0 of the atom netlist, is marked constant. A
  second LUT has its input, pin 2, on net 0.
\<close>

definition vcc_lut :: t_pb where
  "vcc_lut = Pb (Some ''vcc'') ''lut'' (Some ''.names'') [[0]] [] [[1]] []"

definition used_lut :: t_pb where
  "used_lut = Pb (Some ''l'') ''lut'' (Some ''.names'') [[2]] [] [[3]] []"

definition example_clb :: t_pb where
  "example_clb = Pb (Some ''clb'') ''clb'' None [] [] []
                    [[vcc_lut, used_lut, Pb None ''lut'' (Some ''.names'') [[4]] [] [[5]] []]]"

definition example_clb_route :: "t_pb_route list" where
  "example_clb_route =
     [route_entry None OPEN, route_entry (Some 0) OPEN, route_entry (Some 0) 1,
      route_entry None OPEN, route_entry None OPEN, route_entry None OPEN]"

definition vcc_netlist :: AtomNetlist where
  "vcc_netlist =
     \<lparr>block_store = [Some \<lparr>blk_name = ''vcc'', blk_kind = COMBINATIONAL, blk_model = ''names'',
                             blk_truth_table = [[TRUE]]\<rparr>],
      port_store = [Some (a_port 0 OUTPUT)],
      pin_store = [Some \<lparr>pn_port = Some 0, pn_bit = 0, pn_type = ATOM_DRIVER, pn_net = Some 0,
                          pn_constant = True\<rparr>],
      net_store = [Some \<lparr>nt_name = ''vcc'', nt_driver = Some 0, nt_sinks = [],
                           nt_constant = True, nt_global = False\<rparr>]\<rparr>"


text \<open>
  What the rest of \<^verbatim>\<open>remove_buffer_lut\<close> asks of a store that keeps its invariants: the
  buffer's only pins are its input pin and its output pin; its two nets are live and are not
  the same net; the output pin is the driver of the output net and is not among the sinks of
  the input net; the input pin is not the driver of the input net; and no other live net has
  the name of either net.
\<close>

definition merge_well_formed :: "AtomNetlist \<Rightarrow> AtomBlockId \<Rightarrow> bool" where
  "merge_well_formed netlist blk \<longleftrightarrow>
     buffer_well_formed netlist blk
     \<and> block_pins netlist blk = [buf_input_pin netlist blk, buf_output_pin netlist blk]
     \<and> buf_input_pin netlist blk \<noteq> buf_output_pin netlist blk
     \<and> buf_input_net netlist blk \<noteq> buf_output_net netlist blk
     \<and> net_name netlist (buf_input_net netlist blk) \<noteq> None
     \<and> net_name netlist (buf_output_net netlist blk) \<noteq> None
     \<and> net_driver netlist (buf_output_net netlist blk) = buf_output_pin netlist blk
     \<and> buf_new_driver netlist blk \<noteq> buf_input_pin netlist blk
     \<and> list_all (\<lambda>s. s \<noteq> buf_output_pin netlist blk)
           (net_sinks netlist (buf_input_net netlist blk))
     \<and> list_all (\<lambda>n. n = buf_input_net netlist blk \<or> n = buf_output_net netlist blk
                      \<or> (net_name netlist n \<noteq> net_name netlist (buf_input_net netlist blk)
                          \<and> net_name netlist n \<noteq> net_name netlist (buf_output_net netlist blk)))
           (nets netlist)"


section \<open>Properties of the hash table and the cluster-net extractor\<close>

lemma insert_in_hash_table_names:
  "h_name ` set (fst (insert_in_hash_table hs name i)) = insert name (h_name ` set hs)"
  by (induction hs) (auto split: prod.splits)

lemma add_net_to_hash_no_open:
  assumes "add_net_to_hash nhash name ncount = Inr (idx, nhash', ncount')"
    and "''open'' \<notin> h_name ` set nhash"
  shows "''open'' \<notin> h_name ` set nhash'"
proof (cases "name = ''open''")
  case True
  with assms show ?thesis by (simp add: add_net_to_hash_def)
next
  case False
  obtain hs r where ins: "insert_in_hash_table nhash name ncount = (hs, r)"
    by (cases "insert_in_hash_table nhash name ncount")
  with assms(1) False have "nhash' = hs"
    by (auto simp: add_net_to_hash_def split: if_splits)
  moreover have "h_name ` set hs = insert name (h_name ` set nhash)"
    using insert_in_hash_table_names [of nhash name ncount] ins by simp
  ultimately show ?thesis using False assms(2) by auto
qed

lemma load_pin_no_open:
  assumes "load_pin nm route p st = Inr st'" and "''open'' \<notin> h_name ` set (fst (snd (snd st)))"
  shows "''open'' \<notin> h_name ` set (fst (snd (snd st')))"
  using assms
  by (auto simp: load_pin_def split: prod.splits if_splits option.splits sum.splits
      dest: add_net_to_hash_no_open)

lemma load_block_nets_no_open:
  assumes "load_block_nets nm b st = Inr st'" and "''open'' \<notin> h_name ` set (fst (snd st))"
  shows "''open'' \<notin> h_name ` set (fst (snd st'))"
proof -
  obtain acc nhash ncount where st: "st = (acc, nhash, ncount)" by (cases st)
  from assms(1) st obtain ipin nets_i nhash' ncount' where
    f: "fold_err (load_pin nm (pb_route b))
          (concat (input_pins b) @ concat (output_pins b) @ concat (clock_pins b))
          (0, blk_nets b, nhash, ncount) = Inr (ipin, nets_i, nhash', ncount')"
    and r: "fst (snd st') = nhash'"
    by (auto simp: load_block_nets_def split: if_splits sum.splits prod.splits)
  have "''open'' \<notin> h_name ` set (fst (snd (snd (ipin, nets_i, nhash', ncount'))))"
    by (rule fold_err_invariant [OF f, where P = "\<lambda>t. ''open'' \<notin> h_name ` set (fst (snd (snd t)))"])
       (use assms(2) st in \<open>auto dest: load_pin_no_open\<close>)
  with r show ?thesis by simp
qed


text \<open>
  C10. \<^verbatim>\<open>add_net_to_hash\<close> called with the name \<^verbatim>\<open>open\<close> returns \<open>OPEN\<close> and leaves
  the table and the count as they were. Consequently the table built by the extractor's first
  loop, from the empty table, never holds an entry named \<^verbatim>\<open>open\<close>, whatever the atom
  nets are called.
\<close>

theorem add_net_to_hash_open_never_interned:
  "add_net_to_hash nhash ''open'' ncount = Inr (OPEN, nhash, ncount) \<and>
   (\<forall>nm block_list blocks' nhash' ncount'.
      intern_external_nets nm block_list = Inr (blocks', nhash', ncount')
        \<longrightarrow> ''open'' \<notin> h_name ` set nhash')"
proof (intro conjI allI impI)
  show "add_net_to_hash nhash ''open'' ncount = Inr (OPEN, nhash, ncount)"
    by (simp add: add_net_to_hash_def)
next
  fix nm block_list blocks' nhash' ncount'
  assume a: "intern_external_nets nm block_list = Inr (blocks', nhash', ncount')"
  have "''open'' \<notin> h_name ` set (fst (snd (blocks', nhash', ncount')))"
    by (rule fold_err_invariant [OF a [unfolded intern_external_nets_def],
          where P = "\<lambda>t. ''open'' \<notin> h_name ` set (fst (snd t))"])
       (auto dest: load_block_nets_no_open)
  then show "''open'' \<notin> h_name ` set nhash'" by simp
qed

theorem add_net_to_hash_open_never_interned_witness:
  "intern_external_nets example_net_name [io_block, open_block]
     = Inr ([io_block\<lparr>blk_nets := [0]\<rparr>, open_block],
            [\<lparr>h_name = ''clk'', h_index = 0, h_count = 1\<rparr>], 1)
   \<and> ''open'' \<notin> h_name ` set [\<lparr>h_name = ''clk'', h_index = 0, h_count = 1\<rparr>]
   \<and> add_net_to_hash [\<lparr>h_name = ''clk'', h_index = 0, h_count = 1\<rparr>] ''open'' 1
     = Inr (OPEN, [\<lparr>h_name = ''clk'', h_index = 0, h_count = 1\<rparr>], 1)"
proof -
  have r: "intern_external_nets example_net_name [io_block, open_block]
     = Inr ([io_block\<lparr>blk_nets := [0]\<rparr>, open_block],
            [\<lparr>h_name = ''clk'', h_index = 0, h_count = 1\<rparr>], 1)"
    by (simp add: intern_external_nets_def load_block_nets_def load_pin_def add_net_to_hash_def
        io_block_def open_block_def io_type_def lut_type_def example_net_name_def OPEN_def)
  from add_net_to_hash_open_never_interned
         [of "[\<lparr>h_name = ''clk'', h_index = 0, h_count = 1\<rparr>]" 1] r
  show ?thesis by blast
qed


lemma fold_err_unit_all:
  "fold_err f xs () = Inr u \<Longrightarrow> x \<in> set xs \<Longrightarrow> f x () = Inr ()"
  by (induction xs) (auto split: sum.splits)

























section \<open>Properties of the sweeps\<close>

lemma remove_blocks_none: "remove_blocks [] netlist = Inr netlist"
  by (simp add: remove_blocks_def)

lemma remove_nets_none: "remove_nets [] netlist = Inr netlist"
  by (simp add: remove_nets_def)

lemma sweep_blocks_zero: "sweep_blocks netlist = Inr (0, n') \<Longrightarrow> n' = netlist"
  by (auto simp: sweep_blocks_def remove_blocks_none split: sum.splits)

lemma sweep_inputs_zero: "sweep_inputs netlist = Inr (0, n') \<Longrightarrow> n' = netlist"
  by (auto simp: sweep_inputs_def remove_blocks_none split: sum.splits)

lemma sweep_outputs_zero: "sweep_outputs netlist = Inr (0, n') \<Longrightarrow> n' = netlist"
  by (auto simp: sweep_outputs_def remove_blocks_none split: sum.splits)

lemma sweep_nets_zero: "sweep_nets netlist = Inr (0, n') \<Longrightarrow> n' = netlist"
  by (auto simp: sweep_nets_def remove_nets_none split: sum.splits)

lemma sweep_constant_output_zero:
  assumes "sweep_constant_output blk_id (c, n) = Inr (c', n')"
  shows "c \<le> c' \<and> (c' = c \<longrightarrow> n' = n)"
  using assms
  by (auto simp: sweep_constant_output_def split: if_splits sum.splits)

lemma sweep_constant_primary_outputs_zero:
  assumes "sweep_constant_primary_outputs netlist = Inr (0, n')"
  shows "n' = netlist"
proof -
  have "fst (0::nat, n') = 0 \<longrightarrow> snd (0::nat, n') = netlist"
    by (rule fold_err_invariant
          [OF assms [unfolded sweep_constant_primary_outputs_def],
           where P = "\<lambda>t. fst t = 0 \<longrightarrow> snd t = netlist"])
       (auto dest: sweep_constant_output_zero)
  then show ?thesis by simp
qed

lemma sweep_pass_zero:
  assumes "sweep_pass netlist ios nts blks cpo = Inr (no_removals, n')"
  shows "n' = netlist"
proof -
  from assms obtain n1 n2 n3 n4 where
    1: "(if ios then sweep_inputs netlist else Inr (0, netlist)) = Inr (0, n1)" and
    2: "(if ios then sweep_outputs n1 else Inr (0, n1)) = Inr (0, n2)" and
    3: "(if blks then sweep_blocks n2 else Inr (0, n2)) = Inr (0, n3)" and
    4: "(if nts then sweep_nets n3 else Inr (0, n3)) = Inr (0, n4)" and
    5: "(if cpo then sweep_constant_primary_outputs n4 else Inr (0, n4)) = Inr (0, n')"
    unfolding sweep_pass_def no_removals_def by (auto split: sum.splits prod.splits)
  from 1 have a: "n1 = netlist" by (auto split: if_splits dest: sweep_inputs_zero)
  from 2 have b: "n2 = n1" by (auto split: if_splits dest: sweep_outputs_zero)
  from 3 have c: "n3 = n2" by (auto split: if_splits dest: sweep_blocks_zero)
  from 4 have d: "n4 = n3" by (auto split: if_splits dest: sweep_nets_zero)
  from 5 have e: "n' = n4" by (auto split: if_splits dest: sweep_constant_primary_outputs_zero)
  from a b c d e show ?thesis by simp
qed

lemma no_removals_iff:
  "(\<not> (dangling_nets_swept pass \<noteq> 0 \<or> dangling_blocks_swept pass \<noteq> 0
        \<or> dangling_inputs_swept pass \<noteq> 0 \<or> dangling_outputs_swept pass \<noteq> 0
        \<or> constant_outputs_swept pass \<noteq> 0)) = (pass = no_removals)"
  by (cases pass) (auto simp: no_removals_def)

lemma sweep_loop_fixpoint:
  "sweep_loop ios nts blks cpo totals netlist = Inr (totals', n')
     \<Longrightarrow> sweep_pass n' ios nts blks cpo = Inr (no_removals, n')"
proof (induction ios nts blks cpo totals netlist rule: sweep_loop.induct)
  case (1 ios nts blks cpo totals netlist)
  from "1.prems" obtain pass n1 where p: "sweep_pass netlist ios nts blks cpo = Inr (pass, n1)"
    by (auto simp: sweep_loop.simps [of ios nts blks cpo totals netlist] split: sum.splits)
  show ?case
  proof (cases "pass = no_removals")
    case True
    with p have "n1 = netlist" by (auto dest: sweep_pass_zero)
    moreover from "1.prems" p True have "n' = n1"
      by (simp add: sweep_loop.simps [of ios nts blks cpo totals netlist] no_removals_def)
    ultimately show ?thesis using p True by simp
  next
    case False
    then have nz: "dangling_nets_swept pass \<noteq> 0 \<or> dangling_blocks_swept pass \<noteq> 0
        \<or> dangling_inputs_swept pass \<noteq> 0 \<or> dangling_outputs_swept pass \<noteq> 0
        \<or> constant_outputs_swept pass \<noteq> 0"
      using no_removals_iff [of pass] by blast
    with "1.prems" p have "sweep_loop ios nts blks cpo (add_pass totals pass) n1 = Inr (totals', n')"
      by (simp add: sweep_loop.simps [of ios nts blks cpo totals netlist])
    from "1.IH" [OF p refl nz this] show ?thesis .
  qed
qed

lemma sweep_loop_at_fixpoint:
  assumes "sweep_pass netlist ios nts blks cpo = Inr (no_removals, netlist)"
  shows "sweep_loop ios nts blks cpo totals netlist = Inr (add_pass totals no_removals, netlist)"
proof -
  have z: "\<not> (dangling_nets_swept no_removals \<noteq> 0 \<or> dangling_blocks_swept no_removals \<noteq> 0
        \<or> dangling_inputs_swept no_removals \<noteq> 0 \<or> dangling_outputs_swept no_removals \<noteq> 0
        \<or> constant_outputs_swept no_removals \<noteq> 0)"
    by (simp add: no_removals_def)
  show ?thesis
    by (subst sweep_loop.simps) (simp only: assms sum.case prod.case z if_False)
qed

lemma add_pass_no_removals: "add_pass no_removals no_removals = no_removals"
  by (simp add: add_pass_def no_removals_def)

text \<open>
  C8. \<^verbatim>\<open>sweep_iterative\<close> is idempotent: when a run returns, a second run with the same
  flags on the netlist it left returns zero removals and leaves the netlist as it is.
\<close>

theorem sweep_iterative_idempotent:
  assumes "sweep_iterative netlist ios nts blks cpo = Inr (k, n')"
  shows "sweep_iterative n' ios nts blks cpo = Inr (0, n')"
proof -
  from assms obtain totals' where
    "sweep_loop ios nts blks cpo no_removals netlist = Inr (totals', n')"
    unfolding sweep_iterative_def no_removals_def by (auto split: sum.splits)
  from sweep_loop_fixpoint [OF this]
  have "sweep_pass n' ios nts blks cpo = Inr (no_removals, n')" .
  from sweep_loop_at_fixpoint [OF this, of no_removals]
  have "sweep_loop ios nts blks cpo no_removals n' = Inr (no_removals, n')"
    by (simp only: add_pass_no_removals)
  then have "sweep_loop ios nts blks cpo
      \<lparr>dangling_nets_swept = 0, dangling_blocks_swept = 0, dangling_inputs_swept = 0,
       dangling_outputs_swept = 0, constant_outputs_swept = 0\<rparr> n'
      = Inr (\<lparr>dangling_nets_swept = 0, dangling_blocks_swept = 0, dangling_inputs_swept = 0,
       dangling_outputs_swept = 0, constant_outputs_swept = 0\<rparr>, n')"
    by (simp only: no_removals_def)
  then show ?thesis
    unfolding sweep_iterative_def by simp
qed

theorem sweep_iterative_idempotent_witness:
  "sweep_iterative dangling_net_netlist True True True True = Inr (1, all_swept_netlist)
   \<and> sweep_iterative all_swept_netlist True True True True = Inr (0, all_swept_netlist)"
proof -
  have r: "sweep_iterative dangling_net_netlist True True True True = Inr (1, all_swept_netlist)"
    by code_simp
  from sweep_iterative_idempotent [OF r] r show ?thesis by simp
qed

text \<open>
  C1 does not hold of the code. On a netlist that is one input pad with a dangling output pin,
  with only the sweep of inputs and outputs enabled, the first pass removes the pad (its count
  of dangling inputs is one), the second pass removes nothing, and the run ends with one live
  block fewer; but \<^verbatim>\<open>sweep_iterative\<close> returns zero, because line 806 adds the pass's
  count of outputs to the total of inputs.
\<close>

theorem sweep_iterative_miscounts_inputs:
  "sweep_pass dangling_input_netlist True False False False
     = Inr (\<lparr>dangling_nets_swept = 0, dangling_blocks_swept = 0, dangling_inputs_swept = 1,
             dangling_outputs_swept = 0, constant_outputs_swept = 0\<rparr>, swept_netlist)
   \<and> sweep_pass swept_netlist True False False False = Inr (no_removals, swept_netlist)
   \<and> sweep_iterative dangling_input_netlist True False False False = Inr (0, swept_netlist)
   \<and> live_count dangling_input_netlist = live_count swept_netlist + 1"
  by code_simp


section \<open>Properties of the buffer LUTs\<close>

lemma table_shape:
  "(length t = 1 \<and> length (t ! 0) = 2 \<and> t ! 0 ! 0 = a \<and> t ! 0 ! 1 = b) = (t = [[a, b]])"
proof
  assume h: "length t = 1 \<and> length (t ! 0) = 2 \<and> t ! 0 ! 0 = a \<and> t ! 0 ! 1 = b"
  then obtain r where t: "t = [r]" by (cases t) auto
  with h have "length r = 2" by simp
  then obtain u v where r: "r = [u, v]"
    by (cases r) (auto simp: length_Suc_conv)
  with h t show "t = [[a, b]]" by simp
next
  assume "t = [[a, b]]"
  then show "length t = 1 \<and> length (t ! 0) = 2 \<and> t ! 0 ! 0 = a \<and> t ! 0 ! 1 = b" by simp
qed

text \<open>
  The counter of the loops of lines 511-524 is the number of pins of the list that are on a
  net, and that number is one exactly when the list is as the spec words it.
\<close>

lemma pin_net_invalid: "pin_net netlist None = None"
  by (simp add: pin_net_def lookup_def)

lemma fold_count_filter:
  "fold (\<lambda>x count. if P x then count + 1 else count) xs n = n + length (filter P xs)"
  by (induction xs arbitrary: n) simp_all

lemma connected_pins_count:
  "connected_pins netlist pins = length (filter (\<lambda>pin. pin_net netlist pin \<noteq> None) pins)"
proof -
  have "(pin \<noteq> None \<and> pin_net netlist pin \<noteq> None) = (pin_net netlist pin \<noteq> None)" for pin
    by (cases pin) (simp_all add: pin_net_invalid)
  then have "(\<lambda>pin. pin \<noteq> None \<and> pin_net netlist pin \<noteq> None) = (\<lambda>pin. pin_net netlist pin \<noteq> None)"
    by (rule ext)
  then show ?thesis
    unfolding connected_pins_def
    using fold_count_filter [of "\<lambda>pin. pin \<noteq> None \<and> pin_net netlist pin \<noteq> None" pins 0]
    by simp
qed

lemma length_filter_one_iff:
  "length (filter P xs) = 1 \<longleftrightarrow>
     (\<exists>i<length xs. P (xs ! i) \<and> (\<forall>j<length xs. j = i \<or> \<not> P (xs ! j)))"
proof -
  have "length (filter P xs) = card {i. i < length xs \<and> P (xs ! i)}"
    by (rule length_filter_conv_card)
  also have "\<dots> = 1 \<longleftrightarrow> (\<exists>i. {i. i < length xs \<and> P (xs ! i)} = {i})"
    by (simp add: card_1_singleton_iff)
  also have "\<dots> \<longleftrightarrow> (\<exists>i<length xs. P (xs ! i) \<and> (\<forall>j<length xs. j = i \<or> \<not> P (xs ! j)))"
    by (auto simp: set_eq_iff)
  finally show ?thesis .
qed

lemma connected_pins_one:
  "connected_pins netlist pins = 1 \<longleftrightarrow> spec_one_connected_pin netlist pins"
  unfolding connected_pins_count length_filter_one_iff spec_one_connected_pin_def
  by (simp add: list_ex_iff list_all_iff Bex_def Ball_def)

text \<open>
  C5. \<^verbatim>\<open>is_buffer_lut\<close> returns true exactly when the block is combinational, its model
  is \<^verbatim>\<open>names\<close>, it has one input port and one output port, exactly one of its input pins
  and exactly one of its output pins is on a net, and its truth table is the single row
  \<^verbatim>\<open>1 1\<close> or the single row \<^verbatim>\<open>0 0\<close>. Pins that are on no net do not count: a buffer
  may have them, and a LUT whose only input pin is on no net is not a buffer.
\<close>

theorem is_buffer_lut_iff:
  "is_buffer_lut netlist blk = Inr True \<longleftrightarrow>
     block_type netlist blk = Some COMBINATIONAL
     \<and> block_model netlist blk = Some ''names''
     \<and> length (block_input_ports netlist blk) = 1
     \<and> length (block_output_ports netlist blk) = 1
     \<and> spec_one_connected_pin netlist (block_input_pins netlist blk)
     \<and> spec_one_connected_pin netlist (block_output_pins netlist blk)
     \<and> (block_truth_table netlist blk = [[TRUE, TRUE]]
         \<or> block_truth_table netlist blk = [[FALSE, FALSE]])"
proof -
  have s: "(block_truth_table netlist blk = [[a, b]])
      = (length (block_truth_table netlist blk) = 1
          \<and> length (block_truth_table netlist blk ! 0) = 2
          \<and> block_truth_table netlist blk ! 0 ! 0 = a
          \<and> block_truth_table netlist blk ! 0 ! 1 = b)" for a b
    by (rule table_shape [symmetric])
  have c: "spec_one_connected_pin netlist pins = (connected_pins netlist pins = 1)" for pins
    by (rule connected_pins_one [symmetric])
  show ?thesis
    unfolding is_buffer_lut_def s c by auto
qed

theorem is_buffer_lut_iff_witness:
  "is_buffer_lut buf_spare_input (Some 1) = Inr True
   \<and> block_input_pins buf_spare_input (Some 1) = [Some 1, Some 4]
   \<and> pin_net buf_spare_input (Some 1) = Some 0
   \<and> pin_net buf_spare_input (Some 4) = None
   \<and> block_type buf_spare_input (Some 1) = Some COMBINATIONAL
   \<and> block_model buf_spare_input (Some 1) = Some ''names''
   \<and> length (block_input_ports buf_spare_input (Some 1)) = 1
   \<and> length (block_output_ports buf_spare_input (Some 1)) = 1
   \<and> spec_one_connected_pin buf_spare_input (block_input_pins buf_spare_input (Some 1))
   \<and> spec_one_connected_pin buf_spare_input (block_output_pins buf_spare_input (Some 1))
   \<and> block_truth_table buf_spare_input (Some 1) = [[TRUE, TRUE]]
   \<and> is_buffer_lut buf_open_input (Some 1) = Inr False
   \<and> block_input_pins buf_open_input (Some 1) = [Some 1]
   \<and> pin_net buf_open_input (Some 1) = None
   \<and> block_type buf_open_input (Some 1) = Some COMBINATIONAL
   \<and> block_model buf_open_input (Some 1) = Some ''names''
   \<and> length (block_input_ports buf_open_input (Some 1)) = 1
   \<and> length (block_output_ports buf_open_input (Some 1)) = 1
   \<and> \<not> spec_one_connected_pin buf_open_input (block_input_pins buf_open_input (Some 1))
   \<and> spec_one_connected_pin buf_open_input (block_output_pins buf_open_input (Some 1))
   \<and> block_truth_table buf_open_input (Some 1) = [[TRUE, TRUE]]
   \<and> is_buffer_lut pi_buf_po (Some 0) = Inr False
   \<and> block_type pi_buf_po (Some 0) = Some INPAD"
proof -
  have r: "is_buffer_lut buf_spare_input (Some 1) = Inr True" by code_simp
  have p: "block_input_pins buf_spare_input (Some 1) = [Some 1, Some 4]"
    "pin_net buf_spare_input (Some 1) = Some 0"
    "pin_net buf_spare_input (Some 4) = None"
    "block_truth_table buf_spare_input (Some 1) = [[TRUE, TRUE]]"
    by code_simp+
  have f: "is_buffer_lut buf_open_input (Some 1) = Inr False" by code_simp
  have q: "block_input_pins buf_open_input (Some 1) = [Some 1]"
    "pin_net buf_open_input (Some 1) = None"
    "block_type buf_open_input (Some 1) = Some COMBINATIONAL"
    "block_model buf_open_input (Some 1) = Some ''names''"
    "length (block_input_ports buf_open_input (Some 1)) = 1"
    "length (block_output_ports buf_open_input (Some 1)) = 1"
    "spec_one_connected_pin buf_open_input (block_output_pins buf_open_input (Some 1))"
    "block_truth_table buf_open_input (Some 1) = [[TRUE, TRUE]]"
    by code_simp+
  have g: "is_buffer_lut pi_buf_po (Some 0) = Inr False"
    "block_type pi_buf_po (Some 0) = Some INPAD"
    by code_simp+
  from is_buffer_lut_iff [of buf_spare_input "Some 1"] r
  have a: "block_type buf_spare_input (Some 1) = Some COMBINATIONAL
     \<and> block_model buf_spare_input (Some 1) = Some ''names''
     \<and> length (block_input_ports buf_spare_input (Some 1)) = 1
     \<and> length (block_output_ports buf_spare_input (Some 1)) = 1
     \<and> spec_one_connected_pin buf_spare_input (block_input_pins buf_spare_input (Some 1))
     \<and> spec_one_connected_pin buf_spare_input (block_output_pins buf_spare_input (Some 1))"
    by simp
  from is_buffer_lut_iff [of buf_open_input "Some 1"] f q
  have b: "\<not> spec_one_connected_pin buf_open_input (block_input_pins buf_open_input (Some 1))"
    by simp
  from r p a f q b g show ?thesis by simp
qed

lemma po_in_sinks_found:
  "\<exists>s\<in>set pins. block_type netlist (pin_block netlist s) = Some OUTPAD
     \<Longrightarrow> po_in_sinks netlist pins \<noteq> Inr False"
  by (induction pins) auto

lemma po_in_sinks_True:
  "po_in_sinks netlist pins = Inr True
     \<Longrightarrow> \<exists>s\<in>set pins. block_type netlist (pin_block netlist s) = Some OUTPAD"
  by (induction pins) (auto split: if_splits)

lemma po_in_sinks_total:
  "\<forall>s\<in>set pins. pin_type netlist s = Some ATOM_SINK
     \<Longrightarrow> po_in_sinks netlist pins
           = Inr (\<exists>s\<in>set pins. block_type netlist (pin_block netlist s) = Some OUTPAD)"
  by (induction pins) auto

lemma length_filter_neq:
  "length (filter (\<lambda>x. x \<noteq> a) xs) + count_list xs a = length xs"
  by (induction xs) auto

text \<open>
  C4. When the driver of the buffer's input net is on an input pad and a sink of its output
  net is on an output pad, \<^verbatim>\<open>remove_buffer_lut\<close> can only return the netlist it was
  given, and it does return it when the buffer's pins and nets are well formed.
\<close>

theorem remove_buffer_lut_skips_pi_to_po:
  assumes pi: "block_type netlist (pin_block netlist (buf_new_driver netlist blk)) = Some INPAD"
    and po: "list_ex (\<lambda>s. block_type netlist (pin_block netlist s) = Some OUTPAD)
               (net_sinks netlist (buf_output_net netlist blk))"
  shows "(\<forall>n'. remove_buffer_lut netlist blk = Inr n' \<longrightarrow> n' = netlist)
       \<and> (buffer_well_formed netlist blk \<longrightarrow> remove_buffer_lut netlist blk = Inr netlist)"
proof -
  from po have ex: "\<exists>s\<in>set (buf_new_sinks netlist blk).
      block_type netlist (pin_block netlist s) = Some OUTPAD"
    by (auto simp: buf_new_sinks_def list_ex_iff)
  have a: "n' = netlist" if r: "remove_buffer_lut netlist blk = Inr n'" for n'
  proof -
    from r obtain p where p: "po_in_sinks netlist (buf_new_sinks netlist blk) = Inr p"
      unfolding remove_buffer_lut_def by (auto split: if_splits sum.splits)
    with po_in_sinks_found [OF ex] have "p" by (cases p) auto
    with r p pi show ?thesis
      unfolding remove_buffer_lut_def by (auto split: if_splits)
  qed
  have b: "remove_buffer_lut netlist blk = Inr netlist" if w: "buffer_well_formed netlist blk"
  proof -
    from w have sk: "\<forall>s\<in>set (buf_new_sinks netlist blk). pin_type netlist s = Some ATOM_SINK"
      by (simp add: buffer_well_formed_def list_all_iff)
    from po_in_sinks_total [OF sk] ex
    have p: "po_in_sinks netlist (buf_new_sinks netlist blk) = Inr True" by simp
    from w have c: "length (buf_new_sinks netlist blk) + 1
        = length (net_sinks netlist (buf_input_net netlist blk))
          + length (net_sinks netlist (buf_output_net netlist blk))"
      using length_filter_neq [of "buf_input_pin netlist blk"
                "net_sinks netlist (buf_input_net netlist blk)"]
      by (simp add: buffer_well_formed_def buf_new_sinks_def)
    from w p c pi show ?thesis
      unfolding remove_buffer_lut_def by (simp add: buffer_well_formed_def)
  qed
  from a b show ?thesis by blast
qed

theorem remove_buffer_lut_skips_pi_to_po_witness:
  "block_type pi_buf_po (pin_block pi_buf_po (buf_new_driver pi_buf_po (Some 1))) = Some INPAD
   \<and> list_ex (\<lambda>s. block_type pi_buf_po (pin_block pi_buf_po s) = Some OUTPAD)
        (net_sinks pi_buf_po (buf_output_net pi_buf_po (Some 1)))
   \<and> buffer_well_formed pi_buf_po (Some 1)
   \<and> remove_buffer_lut pi_buf_po (Some 1) = Inr pi_buf_po"
proof -
  have pi: "block_type pi_buf_po (pin_block pi_buf_po (buf_new_driver pi_buf_po (Some 1))) = Some INPAD"
    by code_simp
  have po: "list_ex (\<lambda>s. block_type pi_buf_po (pin_block pi_buf_po s) = Some OUTPAD)
        (net_sinks pi_buf_po (buf_output_net pi_buf_po (Some 1)))"
    by code_simp
  have w: "buffer_well_formed pi_buf_po (Some 1)" by code_simp
  from remove_buffer_lut_skips_pi_to_po [OF pi po] pi po w show ?thesis by blast
qed

text \<open>
  What the three mutators do to the arrays of the store: a removal tombstones its entity, a
  dead pin stays dead, and \<^verbatim>\<open>add_net\<close> appends the new net.
\<close>

lemma lookup_kill_same: "lookup (kill store p) p = None"
  by (auto simp: lookup_def kill_def split: option.splits)

lemma nth_update_None:
  "store ! i = None \<Longrightarrow> store[j := None] ! i = None"
  by (cases "j < length store"; cases "i = j") (simp_all add: list_update_beyond)

lemma lookup_kill_dead: "lookup store q = None \<Longrightarrow> lookup (kill store p) q = None"
  by (auto simp: lookup_def kill_def nth_update_None split: option.splits if_splits)

lemma kill_dead: "lookup store p = None \<Longrightarrow> kill store p = store"
  by (auto simp: lookup_def kill_def list_update_same_conv list_update_beyond
      split: option.splits if_splits)

lemma length_kill: "length (kill store p) = length store"
  by (simp add: kill_def split: option.splits)

lemma lookup_fold_kill_dead:
  "lookup store q = None \<Longrightarrow> lookup (fold (\<lambda>p st. kill st p) ps store) q = None"
  by (induction ps arbitrary: store) (simp_all add: lookup_kill_dead)

lemma lookup_fold_kill:
  "p \<in> set ps \<Longrightarrow> lookup (fold (\<lambda>p st. kill st p) ps store) p = None"
proof (induction ps arbitrary: store)
  case Nil
  then show ?case by simp
next
  case (Cons a ps)
  show ?case
  proof (cases "p = a")
    case True
    then show ?thesis
      by (simp add: lookup_fold_kill_dead lookup_kill_same)
  next
    case False
    with Cons show ?thesis by simp
  qed
qed

lemma detach_pin_pin_store: "pin_store (detach_pin netlist p) = kill (pin_store netlist) p"
  by (auto simp: detach_pin_def kill_dead split: option.splits)

lemma detach_pin_net_length: "length (net_store (detach_pin netlist p)) = length (net_store netlist)"
  by (auto simp: detach_pin_def split: option.splits)

lemma detach_pin_net_dead:
  "(lookup (net_store (detach_pin netlist p)) q = None) = (lookup (net_store netlist) q = None)"
  by (auto simp: detach_pin_def lookup_def nth_list_update split: option.splits if_splits)

lemma fold_detach_pin_net_dead:
  "(lookup (net_store (fold (\<lambda>pin n. detach_pin n pin) pins netlist)) q = None)
     = (lookup (net_store netlist) q = None)"
  by (induction pins arbitrary: netlist) (simp_all add: detach_pin_net_dead)

lemma fold_detach_pin_pin_store:
  "pin_store (fold (\<lambda>pin n. detach_pin n pin) pins netlist)
     = fold (\<lambda>p st. kill st p) pins (pin_store netlist)"
  by (induction pins arbitrary: netlist) (simp_all add: detach_pin_pin_store)

lemma fold_detach_pin_net_length:
  "length (net_store (fold (\<lambda>pin n. detach_pin n pin) pins netlist)) = length (net_store netlist)"
  by (induction pins arbitrary: netlist) (simp_all add: detach_pin_net_length)

lemma remove_block_effect:
  assumes "remove_block netlist blk = Inr n1"
  shows "lookup (block_store netlist) blk \<noteq> None"
    and "block_store n1 = kill (block_store netlist) blk"
    and "pin_store n1 = fold (\<lambda>p st. kill st p) (block_pins netlist blk) (pin_store netlist)"
    and "length (net_store n1) = length (net_store netlist)"
    and "(lookup (net_store n1) q = None) = (lookup (net_store netlist) q = None)"
  using assms
  by (auto simp: remove_block_def fold_detach_pin_pin_store fold_detach_pin_net_length
      fold_detach_pin_net_dead split: option.splits)

lemma lookup_map_option:
  "(lookup (map (map_option f) store) q = None) = (lookup store q = None)"
  by (auto simp: lookup_def split: option.splits)

lemma remove_net_effect:
  assumes "remove_net netlist net = Inr n2"
  shows "lookup (net_store netlist) net \<noteq> None"
    and "block_store n2 = block_store netlist"
    and "net_store n2 = kill (net_store netlist) net"
    and "lookup (pin_store netlist) q = None \<Longrightarrow> lookup (pin_store n2) q = None"
  using assms
  by (auto simp: remove_net_def lookup_map_option split: option.splits)

lemma lookup_rebind_pin:
  "lookup store q = None \<Longrightarrow> lookup (rebind_pin net p store) q = None"
  by (auto simp: rebind_pin_def lookup_def nth_list_update split: option.splits if_splits)

lemma lookup_fold_rebind_pin:
  "lookup store q = None \<Longrightarrow> lookup (fold (rebind_pin net) ps store) q = None"
  by (induction ps arbitrary: store) (simp_all add: lookup_rebind_pin)

lemma lookup_rebind_pins:
  "lookup store q = None \<Longrightarrow> lookup (fold (rebind_pin net) ps (rebind_pin net p store)) q = None"
  by (simp add: lookup_fold_rebind_pin lookup_rebind_pin)

lemma add_net_effect:
  assumes "add_net netlist name driver sinks = Inr (new_net, n4)"
  shows "block_store n4 = block_store netlist"
    and "net_store n4 = net_store netlist
           @ [Some \<lparr>nt_name = name, nt_driver = driver, nt_sinks = sinks,
                    nt_constant = False, nt_global = False\<rparr>]"
    and "lookup (pin_store netlist) q = None \<Longrightarrow> lookup (pin_store n4) q = None"
  using assms
  by (auto simp: add_net_def lookup_rebind_pins split: if_splits)

lemma lookup_append_dead:
  "lookup store q \<noteq> None \<Longrightarrow> lookup (kill store q @ [x]) q = None"
  by (auto simp: lookup_def kill_def nth_append split: option.splits if_splits)

lemma lookup_append_dead':
  "lookup store q = None \<Longrightarrow> q \<noteq> Some (length store) \<Longrightarrow> lookup (store @ [x]) q = None"
  by (auto simp: lookup_def nth_append split: option.splits if_splits)

lemma lookup_append_new: "lookup (store @ [x]) (Some (length store)) = x"
  by (simp add: lookup_def)

lemma lookup_live_index: "lookup store q \<noteq> None \<Longrightarrow> q \<noteq> Some (length store)"
  by (auto simp: lookup_def)

lemma input_pin_in_block_pins:
  assumes "length (block_input_pins netlist blk) = 1"
  shows "buf_input_pin netlist blk \<in> set (block_pins netlist blk)"
proof -
  from assms have "block_input_pins netlist blk \<noteq> []" by auto
  then have "buf_input_pin netlist blk \<in> set (block_input_pins netlist blk)"
    by (simp add: buf_input_pin_def)
  then show ?thesis
    by (auto simp: block_input_pins_def block_input_ports_def block_pins_def)
qed

lemma output_pin_in_block_pins:
  assumes "length (block_output_pins netlist blk) = 1"
  shows "buf_output_pin netlist blk \<in> set (block_pins netlist blk)"
proof -
  from assms have "block_output_pins netlist blk \<noteq> []" by auto
  then have "buf_output_pin netlist blk \<in> set (block_output_pins netlist blk)"
    by (simp add: buf_output_pin_def)
  then show ?thesis
    by (auto simp: block_output_pins_def block_output_ports_def block_pins_def)
qed

lemma merge_nets_effect:
  assumes m: "merge_nets netlist blk input_net output_net name driver sinks = Inr n'"
    and pin: "p \<in> set (block_pins netlist blk)"
  shows "lookup (block_store netlist) blk \<noteq> None
       \<and> lookup (net_store netlist) input_net \<noteq> None
       \<and> lookup (net_store netlist) output_net \<noteq> None
       \<and> lookup (block_store n') blk = None
       \<and> lookup (pin_store n') p = None
       \<and> lookup (net_store n') input_net = None
       \<and> lookup (net_store n') output_net = None
       \<and> lookup (net_store n') (Some (length (net_store netlist)))
           = Some \<lparr>nt_name = name, nt_driver = driver, nt_sinks = sinks,
                   nt_constant = False, nt_global = False\<rparr>"
proof -
  from m obtain n1 n2 n3 new_net where
    1: "remove_block netlist blk = Inr n1" and
    2: "remove_net n1 input_net = Inr n2" and
    3: "remove_net n2 output_net = Inr n3" and
    4: "add_net n3 name driver sinks = Inr (new_net, n')"
    unfolding merge_nets_def by (auto split: sum.splits if_splits prod.splits)
  note b = remove_block_effect [OF 1]
  note r2 = remove_net_effect [OF 2]
  note r3 = remove_net_effect [OF 3]
  note a = add_net_effect [OF 4]
  have len: "length (net_store n3) = length (net_store netlist)"
    by (simp add: r3(3) r2(3) length_kill b(4))
  have blk: "lookup (block_store n') blk = None"
    by (simp add: a(1) r3(2) r2(2) b(2) lookup_kill_same)
  have "lookup (pin_store n1) p = None"
    by (simp add: b(3) lookup_fold_kill [OF pin])
  then have pn: "lookup (pin_store n') p = None"
    by (intro a(3) r3(4) r2(4))
  have i1: "lookup (net_store n1) input_net \<noteq> None" by (rule r2(1))
  have o2: "lookup (net_store n2) output_net \<noteq> None" by (rule r3(1))
  have "lookup (net_store n3) input_net = None"
    by (simp add: r3(3) r2(3) lookup_kill_dead lookup_kill_same)
  moreover have "input_net \<noteq> Some (length (net_store n3))"
    using lookup_live_index [OF i1] by (simp add: r3(3) r2(3) length_kill)
  ultimately have inn: "lookup (net_store n') input_net = None"
    by (simp add: a(2) lookup_append_dead')
  have onn: "lookup (net_store n') output_net = None"
    using lookup_append_dead [OF o2] by (simp add: a(2) r3(3))
  have new: "lookup (net_store n') (Some (length (net_store netlist)))
           = Some \<lparr>nt_name = name, nt_driver = driver, nt_sinks = sinks,
                   nt_constant = False, nt_global = False\<rparr>"
    using lookup_append_new [of "net_store n3"] by (simp add: a(2) len)
  have li: "lookup (net_store netlist) input_net \<noteq> None"
    using i1 b(5) [of input_net] by simp
  have "lookup (net_store n1) output_net \<noteq> None"
  proof
    assume "lookup (net_store n1) output_net = None"
    then have "lookup (net_store n2) output_net = None"
      by (simp add: r2(3) lookup_kill_dead)
    with o2 show False by simp
  qed
  then have lo: "lookup (net_store netlist) output_net \<noteq> None"
    using b(5) [of output_net] by simp
  from b(1) li lo blk pn inn onn new show ?thesis by simp
qed

lemma remove_buffer_lut_merge_call:
  assumes ns: "\<not> (block_type netlist (pin_block netlist (buf_new_driver netlist blk)) = Some INPAD
              \<and> list_ex (\<lambda>s. block_type netlist (pin_block netlist s) = Some OUTPAD)
                   (buf_new_sinks netlist blk))"
    and ok: "remove_buffer_lut netlist blk = Inr n'"
  shows "\<exists>name. merge_nets netlist blk (buf_input_net netlist blk) (buf_output_net netlist blk)
             name (buf_new_driver netlist blk) (buf_new_sinks netlist blk) = Inr n'
           \<and> Some name =
               (if block_type netlist (pin_block netlist (buf_new_driver netlist blk)) = Some INPAD
                then net_name netlist (buf_input_net netlist blk)
                else net_name netlist (buf_output_net netlist blk))"
proof -
  from ok obtain po where p: "po_in_sinks netlist (buf_new_sinks netlist blk) = Inr po"
    unfolding remove_buffer_lut_def by (auto split: if_splits sum.splits)
  have npo: "\<not> po"
    if "block_type netlist (pin_block netlist (buf_new_driver netlist blk)) = Some INPAD"
  proof
    assume po
    with p po_in_sinks_True [of netlist "buf_new_sinks netlist blk"]
    have "list_ex (\<lambda>s. block_type netlist (pin_block netlist s) = Some OUTPAD)
                   (buf_new_sinks netlist blk)"
      by (simp add: list_ex_iff)
    with ns that show False by simp
  qed
  show ?thesis
  proof (cases "block_type netlist (pin_block netlist (buf_new_driver netlist blk)) = Some INPAD")
    case True
    with npo have "\<not> po" by simp
    with ok p True show ?thesis
      unfolding remove_buffer_lut_def by (auto split: if_splits option.splits)
  next
    case False
    with ok p show ?thesis
      unfolding remove_buffer_lut_def by (cases po) (auto split: if_splits option.splits)
  qed
qed

text \<open>
  \<^verbatim>\<open>remove_buffer_lut\<close> returns on a well formed buffer that is not in the skip case:
  every assertion on its path holds. Detaching the input pin leaves the input net with one pin
  less, detaching the output pin leaves the output net without a driver, both nets are live
  and distinct when they are removed, and no live net keeps the name given to the merged net.
\<close>

lemma length_removeAll_count:
  "length (removeAll x xs) + count_list xs x = length xs"
  by (induction xs) auto

lemma lookup_SomeD:
  "lookup store ident = Some x \<Longrightarrow> \<exists>i. ident = Some i \<and> i < length store \<and> store ! i = Some x"
  by (auto simp: lookup_def split: option.splits if_splits)

lemma lookup_update_other:
  "ident \<noteq> Some i \<Longrightarrow> lookup (store[i := v]) ident = lookup store ident"
  by (cases ident) (simp_all add: lookup_def)

lemma lookup_kill_other:
  "ident \<noteq> p \<Longrightarrow> lookup (kill store p) ident = lookup store ident"
  by (cases p) (simp_all add: kill_def lookup_update_other)

lemma block_pins_live:
  assumes "p \<in> set (block_pins netlist blk)"
  shows "lookup (pin_store netlist) p \<noteq> None"
  using assms
  by (auto simp: block_pins_def port_pins_def split: option.splits)

lemma block_pins_block_live:
  assumes "block_pins netlist blk \<noteq> []"
  shows "lookup (block_store netlist) blk \<noteq> None"
proof
  assume "lookup (block_store netlist) blk = None"
  then have "block_pins netlist blk = []"
    by (simp add: block_pins_def block_ports_def)
  with assms show False by simp
qed

lemma net_name_live: "net_name netlist n \<noteq> None \<Longrightarrow> lookup (net_store netlist) n \<noteq> None"
  by (auto simp: net_name_def)

lemma detach_pin_sink:
  assumes "lookup (pin_store netlist) p = Some r" and "pn_net r = Some i"
    and "lookup (net_store netlist) (Some i) = Some nr" and "nt_driver nr \<noteq> p"
  shows "detach_pin netlist p
           = netlist\<lparr>net_store := (net_store netlist)
                        [i := Some (nr\<lparr>nt_sinks := removeAll p (nt_sinks nr)\<rparr>)],
                      pin_store := kill (pin_store netlist) p\<rparr>"
  using assms by (simp add: detach_pin_def)

lemma detach_pin_driver:
  assumes "lookup (pin_store netlist) p = Some r" and "pn_net r = Some i"
    and "lookup (net_store netlist) (Some i) = Some nr" and "nt_driver nr = p"
  shows "detach_pin netlist p
           = netlist\<lparr>net_store := (net_store netlist)[i := Some (nr\<lparr>nt_driver := None\<rparr>)],
                      pin_store := kill (pin_store netlist) p\<rparr>"
  using assms by (simp add: detach_pin_def)

lemma remove_buffer_lut_returns:
  assumes w: "merge_well_formed netlist blk"
    and ns: "\<not> (block_type netlist (pin_block netlist (buf_new_driver netlist blk)) = Some INPAD
              \<and> list_ex (\<lambda>s. block_type netlist (pin_block netlist s) = Some OUTPAD)
                   (buf_new_sinks netlist blk))"
  shows "\<exists>n'. remove_buffer_lut netlist blk = Inr n'"
proof -
  let ?pi = "buf_input_pin netlist blk" and ?po = "buf_output_pin netlist blk"
  let ?ni = "buf_input_net netlist blk" and ?no = "buf_output_net netlist blk"
  let ?d = "buf_new_driver netlist blk" and ?s = "buf_new_sinks netlist blk"
  from w have bw: "buffer_well_formed netlist blk"
    and bp: "block_pins netlist blk = [?pi, ?po]"
    and pne: "?pi \<noteq> ?po" and nne: "?ni \<noteq> ?no"
    and nmi: "net_name netlist ?ni \<noteq> None" and nmo: "net_name netlist ?no \<noteq> None"
    and dro: "net_driver netlist ?no = ?po" and dri: "?d \<noteq> ?pi"
    and pos: "list_all (\<lambda>s. s \<noteq> ?po) (net_sinks netlist ?ni)"
    and uniq: "list_all (\<lambda>n. n = ?ni \<or> n = ?no
                      \<or> (net_name netlist n \<noteq> net_name netlist ?ni
                          \<and> net_name netlist n \<noteq> net_name netlist ?no))
           (nets netlist)"
    by (simp_all add: merge_well_formed_def)
  from bw have li: "length (block_input_pins netlist blk) = 1"
    and lo: "length (block_output_pins netlist blk) = 1"
    and dt: "pin_type netlist ?d = Some ATOM_DRIVER"
    and cnt: "count_list (net_sinks netlist ?ni) ?pi = 1"
    and sk: "\<forall>s\<in>set ?s. pin_type netlist s = Some ATOM_SINK"
    by (simp_all add: buffer_well_formed_def list_all_iff)
  \<comment> \<open>the pins and nets as entries of the store\<close>
  from bp have "?pi \<in> set (block_pins netlist blk)" "?po \<in> set (block_pins netlist blk)"
    by simp_all
  then obtain ri ro where ri: "lookup (pin_store netlist) ?pi = Some ri"
    and ro: "lookup (pin_store netlist) ?po = Some ro"
    using block_pins_live by fastforce
  from ri have rin: "pn_net ri = ?ni" by (simp add: buf_input_net_def pin_net_def)
  from ro have ron: "pn_net ro = ?no" by (simp add: buf_output_net_def pin_net_def)
  from nmi obtain nri where nri: "lookup (net_store netlist) ?ni = Some nri"
    using net_name_live by fastforce
  from nmo obtain nro where nro: "lookup (net_store netlist) ?no = Some nro"
    using net_name_live by fastforce
  from lookup_SomeD [OF nri] obtain ii where ii: "?ni = Some ii" "ii < length (net_store netlist)"
    by auto
  from lookup_SomeD [OF nro] obtain io where io: "?no = Some io" "io < length (net_store netlist)"
    by auto
  from nne ii io have iio: "ii \<noteq> io" by auto
  from nri have di: "nt_driver nri = ?d" and si: "nt_sinks nri = net_sinks netlist ?ni"
    by (simp_all add: buf_new_driver_def net_driver_def net_sinks_def)
  from nro dro have dout: "nt_driver nro = ?po" by (simp add: net_driver_def)
  \<comment> \<open>the store after the block is removed\<close>
  let ?nsi = "Some (nri\<lparr>nt_sinks := removeAll ?pi (nt_sinks nri)\<rparr>)"
  let ?n1 = "netlist\<lparr>net_store := (net_store netlist)[ii := ?nsi],
                     pin_store := kill (pin_store netlist) ?pi\<rparr>"
  have d1: "detach_pin netlist ?pi = ?n1"
    using detach_pin_sink [OF ri _ _ _, of ii nri] rin ii nri di dri by simp
  have ro1: "lookup (pin_store ?n1) ?po = Some ro"
    using ro pne by (simp add: lookup_kill_other)
  have nro1: "lookup (net_store ?n1) (Some io) = Some nro"
    using nro io iio by (simp add: lookup_update_other)
  let ?n2 = "?n1\<lparr>net_store := (net_store ?n1)[io := Some (nro\<lparr>nt_driver := None\<rparr>)],
                  pin_store := kill (pin_store ?n1) ?po\<rparr>"
  have d2: "detach_pin ?n1 ?po = ?n2"
    using detach_pin_driver [OF ro1 _ nro1 dout] ron io by simp
  obtain n1 where n1: "remove_block netlist blk = Inr n1"
    and ns1: "net_store n1 = (net_store netlist)[ii := ?nsi, io := Some (nro\<lparr>nt_driver := None\<rparr>)]"
  proof -
    from bp have "lookup (block_store netlist) blk \<noteq> None"
      using block_pins_block_live [of netlist blk] by simp
    then obtain b where b: "lookup (block_store netlist) blk = Some b" by auto
    have "fold (\<lambda>pin n. detach_pin n pin) (block_pins netlist blk) netlist = ?n2"
      by (simp add: bp d1 d2)
    with b that show ?thesis by (simp add: remove_block_def)
  qed
  have l1: "length (net_store n1) = length (net_store netlist)" by (simp add: ns1)
  have e_in: "lookup (net_store n1) ?ni = ?nsi"
    using ii iio by (simp add: ns1 lookup_def)
  have e_out: "lookup (net_store n1) ?no = Some (nro\<lparr>nt_driver := None\<rparr>)"
    using io by (simp add: ns1 lookup_def)
  have a1: "length (net_pins n1 ?ni) + 1 = length (net_pins netlist ?ni)"
    using length_removeAll_count [of ?pi "nt_sinks nri"] cnt si
    by (simp add: net_pins_def e_in nri)
  have a2: "net_driver n1 ?no = None"
    by (simp add: net_driver_def e_out)
  obtain n2 where n2: "remove_net n1 ?ni = Inr n2"
    and ns2: "net_store n2 = kill (net_store n1) ?ni"
    by (simp add: remove_net_def e_in)
  have "lookup (net_store n2) ?no = Some (nro\<lparr>nt_driver := None\<rparr>)"
    using e_out nne by (simp add: ns2 lookup_kill_other)
  then obtain n3 where n3: "remove_net n2 ?no = Inr n3"
    and ns3: "net_store n3 = kill (net_store n2) ?no"
    by (simp add: remove_net_def)
  \<comment> \<open>the names left in the store\<close>
  have free: "find_net n3 name = None"
    if nm: "Some name = net_name netlist ?ni \<or> Some name = net_name netlist ?no" for name
  proof -
    have "\<not> (net_name n3 n = Some name)" if n: "n \<in> set (nets n3)" for n
    proof
      assume h: "net_name n3 n = Some name"
      then have live3: "lookup (net_store n3) n \<noteq> None" using net_name_live by fastforce
      have n_i: "n \<noteq> ?ni"
        using live3 by (auto simp: ns3 ns2 lookup_kill_dead lookup_kill_same)
      have n_o: "n \<noteq> ?no"
        using live3 by (auto simp: ns3 lookup_kill_same)
      from n_i n_o ii io have same: "lookup (net_store n3) n = lookup (net_store netlist) n"
        by (simp add: ns3 ns2 ns1 lookup_kill_other lookup_update_other)
      with h have hn: "net_name netlist n = Some name" by (simp add: net_name_def)
      then have "lookup (net_store netlist) n \<noteq> None" using net_name_live by fastforce
      then have "n \<in> set (nets netlist)"
        by (auto simp: nets_def ids_def lookup_def split: option.splits if_splits)
      with uniq n_i n_o have "net_name netlist n \<noteq> net_name netlist ?ni
                          \<and> net_name netlist n \<noteq> net_name netlist ?no"
        by (auto simp: list_all_iff)
      with hn nm show False by auto
    qed
    then have "find (\<lambda>n. net_name n3 n = Some name) (nets n3) = None"
      by (simp add: find_None_iff)
    then show ?thesis by (simp add: find_net_def)
  qed
  have merge: "\<exists>n'. merge_nets netlist blk ?ni ?no name ?d ?s = Inr n'"
    if nm: "Some name = net_name netlist ?ni \<or> Some name = net_name netlist ?no" for name
    using free [OF nm] n1 a1 a2 n2 n3
    by (simp add: merge_nets_def add_net_def)
  \<comment> \<open>the assertions before the merge\<close>
  from po_in_sinks_total [OF sk]
  obtain po where po: "po_in_sinks netlist ?s = Inr po"
    and pov: "po = (\<exists>s\<in>set ?s. block_type netlist (pin_block netlist s) = Some OUTPAD)"
    by simp
  have c: "length ?s + 1 = length (net_sinks netlist ?ni) + length (net_sinks netlist ?no)"
    using length_filter_neq [of ?pi "net_sinks netlist ?ni"] cnt
    by (simp add: buf_new_sinks_def)
  from nmi obtain name_i where name_i: "net_name netlist ?ni = Some name_i" by auto
  from nmo obtain name_o where name_o: "net_name netlist ?no = Some name_o" by auto
  from merge [of name_i] name_i obtain n_a where
    ma: "merge_nets netlist blk ?ni ?no name_i ?d ?s = Inr n_a" by auto
  from merge [of name_o] name_o obtain n_b where
    mb: "merge_nets netlist blk ?ni ?no name_o ?d ?s = Inr n_b" by auto
  from ns pov have nskip: "\<not> (block_type netlist (pin_block netlist ?d) = Some INPAD \<and> po)"
    by (simp add: list_ex_iff)
  show ?thesis
  proof (cases "block_type netlist (pin_block netlist ?d) = Some INPAD")
    case True
    with nskip have "\<not> po" by simp
    with True li lo dt c po name_i ma show ?thesis
      by (simp add: remove_buffer_lut_def)
  next
    case False
    with li lo dt c po name_o mb show ?thesis
      by (cases po) (simp_all add: remove_buffer_lut_def)
  qed
qed

lemma merge_well_formed_example:
  "merge_well_formed pi_buf_lut (Some 1)
   \<and> remove_buffer_lut pi_buf_lut (Some 1) = Inr pi_buf_lut_merged"
  by code_simp

text \<open>
  C3, as the code has it. The buffer is kept when the driver of its input net is on an input
  pad and some sink of the merged net, that is a sink of the input net other than the buffer's
  input pin or a sink of the output net, is on an output pad. In every other case, when
  \<^verbatim>\<open>remove_buffer_lut\<close> returns, the block and both nets were live before and are removed,
  the buffer's two pins are removed, and a net with a new identifier exists whose driver is
  the input net's driver, whose sinks are the sinks of the input net without the buffer's
  input pin followed by the sinks of the output net, and whose name is the input net's when
  the driver is on an input pad and the output net's otherwise. That it does return on a well
  formed buffer outside the skip case is \<open>remove_buffer_lut_returns\<close> above.
\<close>

theorem remove_buffer_lut_merges:
  assumes ns: "\<not> (block_type netlist (pin_block netlist (buf_new_driver netlist blk)) = Some INPAD
              \<and> list_ex (\<lambda>s. block_type netlist (pin_block netlist s) = Some OUTPAD)
                   (buf_new_sinks netlist blk))"
    and ok: "remove_buffer_lut netlist blk = Inr n'"
  shows "block_type netlist blk \<noteq> None
       \<and> net_name netlist (buf_input_net netlist blk) \<noteq> None
       \<and> net_name netlist (buf_output_net netlist blk) \<noteq> None
       \<and> block_type n' blk = None
       \<and> pin_type n' (buf_input_pin netlist blk) = None
       \<and> pin_type n' (buf_output_pin netlist blk) = None
       \<and> net_name n' (buf_input_net netlist blk) = None
       \<and> net_name n' (buf_output_net netlist blk) = None
       \<and> net_name netlist (Some (length (net_store netlist))) = None
       \<and> net_driver n' (Some (length (net_store netlist))) = buf_new_driver netlist blk
       \<and> net_sinks n' (Some (length (net_store netlist))) = buf_new_sinks netlist blk
       \<and> net_name n' (Some (length (net_store netlist))) =
           (if block_type netlist (pin_block netlist (buf_new_driver netlist blk)) = Some INPAD
            then net_name netlist (buf_input_net netlist blk)
            else net_name netlist (buf_output_net netlist blk))"
proof -
  from remove_buffer_lut_merge_call [OF ns ok] obtain name where
    m: "merge_nets netlist blk (buf_input_net netlist blk) (buf_output_net netlist blk)
             name (buf_new_driver netlist blk) (buf_new_sinks netlist blk) = Inr n'" and
    nm: "Some name =
               (if block_type netlist (pin_block netlist (buf_new_driver netlist blk)) = Some INPAD
                then net_name netlist (buf_input_net netlist blk)
                else net_name netlist (buf_output_net netlist blk))"
    by blast
  from ok have li: "length (block_input_pins netlist blk) = 1"
    and lo: "length (block_output_pins netlist blk) = 1"
    unfolding remove_buffer_lut_def by (auto split: if_splits)
  note i = merge_nets_effect [OF m input_pin_in_block_pins [OF li]]
  note o = merge_nets_effect [OF m output_pin_in_block_pins [OF lo]]
  have fresh: "net_name netlist (Some (length (net_store netlist))) = None"
    by (simp add: net_name_def lookup_def)
  from i o nm fresh show ?thesis
    by (auto simp: block_type_def pin_type_def net_name_def net_driver_def net_sinks_def)
qed

theorem remove_buffer_lut_merges_witness:
  "\<not> (block_type pi_buf_lut (pin_block pi_buf_lut (buf_new_driver pi_buf_lut (Some 1))) = Some INPAD
       \<and> list_ex (\<lambda>s. block_type pi_buf_lut (pin_block pi_buf_lut s) = Some OUTPAD)
            (buf_new_sinks pi_buf_lut (Some 1)))
   \<and> remove_buffer_lut pi_buf_lut (Some 1) = Inr pi_buf_lut_merged
   \<and> block_type pi_buf_lut_merged (Some 1) = None
   \<and> net_name pi_buf_lut_merged (Some 0) = None
   \<and> net_name pi_buf_lut_merged (Some 1) = None
   \<and> net_driver pi_buf_lut_merged (Some 2) = Some 0
   \<and> net_sinks pi_buf_lut_merged (Some 2) = [Some 3]
   \<and> net_name pi_buf_lut_merged (Some 2) = Some ''x''"
proof -
  have ns: "\<not> (block_type pi_buf_lut (pin_block pi_buf_lut (buf_new_driver pi_buf_lut (Some 1))) = Some INPAD
       \<and> list_ex (\<lambda>s. block_type pi_buf_lut (pin_block pi_buf_lut s) = Some OUTPAD)
            (buf_new_sinks pi_buf_lut (Some 1)))"
    by code_simp
  have ok: "remove_buffer_lut pi_buf_lut (Some 1) = Inr pi_buf_lut_merged"
    by code_simp
  have v: "buf_input_net pi_buf_lut (Some 1) = Some 0"
    "buf_output_net pi_buf_lut (Some 1) = Some 1"
    "length (net_store pi_buf_lut) = 2"
    "buf_new_driver pi_buf_lut (Some 1) = Some 0"
    "buf_new_sinks pi_buf_lut (Some 1) = [Some 3]"
    "block_type pi_buf_lut (pin_block pi_buf_lut (Some 0)) = Some INPAD"
    "net_name pi_buf_lut (Some 0) = Some ''x''"
    by code_simp+
  from remove_buffer_lut_merges [OF ns ok] ns ok show ?thesis
    unfolding v by simp
qed

text \<open>
  C3 as stated fails. The input pad \<^verbatim>\<open>x\<close> feeds the buffer and an output pad on net
  \<^verbatim>\<open>x\<close>, and no sink of the buffer's output net \<^verbatim>\<open>y\<close> is on an output pad: this is
  not the skip case of the claim, yet \<^verbatim>\<open>remove_buffer_lut\<close> returns the netlist as it
  was, with the buffer and both nets in place.
\<close>

theorem remove_buffer_lut_skips_po_on_input_net:
  "is_buffer_lut pi_po_and_buf (Some 1) = Inr True
   \<and> block_type pi_po_and_buf (pin_block pi_po_and_buf (buf_new_driver pi_po_and_buf (Some 1)))
       = Some INPAD
   \<and> \<not> list_ex (\<lambda>s. block_type pi_po_and_buf (pin_block pi_po_and_buf s) = Some OUTPAD)
          (net_sinks pi_po_and_buf (buf_output_net pi_po_and_buf (Some 1)))
   \<and> remove_buffer_lut pi_po_and_buf (Some 1) = Inr pi_po_and_buf
   \<and> block_type pi_po_and_buf (Some 1) = Some COMBINATIONAL
   \<and> net_name pi_po_and_buf (buf_input_net pi_po_and_buf (Some 1)) = Some ''x''
   \<and> net_name pi_po_and_buf (buf_output_net pi_po_and_buf (Some 1)) = Some ''y''"
  by code_simp


section \<open>Properties of the LUT masks\<close>

lemma minterm_loop_value:
  "minterm_loop cube i acc = Inr r \<Longrightarrow> r = acc + 2 ^ i * cube_value cube"
proof (induction cube arbitrary: i acc)
  case Nil
  then show ?case by simp
next
  case (Cons c cube)
  show ?case
  proof (cases "c = TRUE")
    case True
    with Cons.prems have "i < 31" and "minterm_loop cube (Suc i) (acc + 2 ^ i) = Inr r"
      by (auto split: if_splits)
    from Cons.IH [OF this(2)] True show ?thesis by (simp add: algebra_simps)
  next
    case False
    with Cons.prems have "minterm_loop cube (Suc i) acc = Inr r" by simp
    from Cons.IH [OF this] False show ?thesis by (simp add: algebra_simps)
  qed
qed

lemma minterm_loop_ok:
  "i + length cube \<le> 31 \<Longrightarrow> \<exists>r. minterm_loop cube i acc = Inr r"
  by (induction cube arbitrary: i acc) auto

lemma covers_value:
  assumes "DONT_CARE \<notin> set cube" and "UNKNOWN \<notin> set cube"
  shows "(covers cube m \<and> m < 2 ^ length cube) = (m = cube_value cube)"
  using assms
proof (induction cube arbitrary: m)
  case Nil
  then show ?case by simp
next
  case (Cons c cube)
  then have ih: "(covers cube (m div 2) \<and> m div 2 < 2 ^ length cube) = (m div 2 = cube_value cube)"
    by simp
  have lt: "(m < 2 ^ length (c # cube)) = (m div 2 < 2 ^ length cube)"
    by auto
  from Cons.prems consider "c = TRUE" | "c = FALSE" by (cases c) auto
  then show ?case
  proof cases
    case 1
    have "(odd m \<and> m div 2 = cube_value cube) = (m = 1 + 2 * cube_value cube)"
      by presburger
    with 1 ih lt show ?thesis by auto
  next
    case 2
    have "(even m \<and> m div 2 = cube_value cube) = (m = 2 * cube_value cube)"
      by presburger
    with 2 ih lt show ?thesis by auto
  qed
qed

lemma covers_update:
  "i < length cube \<Longrightarrow> cube ! i = DONT_CARE
     \<Longrightarrow> (covers (cube[i := TRUE]) m \<or> covers (cube[i := FALSE]) m) = covers cube m"
proof (induction cube arbitrary: i m)
  case Nil
  then show ?case by simp
next
  case (Cons c cube)
  then show ?case by (cases i) auto
qed

lemma minterms_of_update:
  assumes "i < length cube" and "cube ! i = DONT_CARE"
  shows "minterms_of (cube[i := TRUE]) \<union> minterms_of (cube[i := FALSE]) = minterms_of cube"
  using covers_update [OF assms] by (auto simp: minterms_of_def)

lemma ex_from_split:
  "(\<exists>j. i \<le> j \<and> j < n \<and> P j) = ((i < n \<and> P i) \<or> (\<exists>j. Suc i \<le> j \<and> j < n \<and> P j))"
  by (metis Suc_leI le_eq_less_or_eq Suc_le_lessD le_refl less_imp_le_nat)

lemma all_from_split:
  "(\<forall>j. i \<le> j \<and> j < n \<longrightarrow> P j) = ((i < n \<longrightarrow> P i) \<and> (\<forall>j. Suc i \<le> j \<and> j < n \<longrightarrow> P j))"
  by (metis Suc_leI le_eq_less_or_eq Suc_le_lessD le_refl less_imp_le_nat)

lemma expand_sound:
  shows "\<forall>ms'. cube_to_minterms_recurr cube minterms = Inr ms' \<longrightarrow>
           set ms' = set minterms \<union> minterms_of cube"
    and "\<forall>dc' ms'. expand_loop cube i cube_has_dc minterms = Inr (dc', ms') \<longrightarrow>
           dc' = (cube_has_dc \<or> (\<exists>j. i \<le> j \<and> j < length cube \<and> cube ! j = DONT_CARE))
           \<and> set ms' = set minterms
                 \<union> (if \<exists>j. i \<le> j \<and> j < length cube \<and> cube ! j = DONT_CARE
                    then minterms_of cube else {})
           \<and> (\<forall>j. i \<le> j \<and> j < length cube \<longrightarrow> cube ! j \<noteq> UNKNOWN)"
proof (induction cube minterms and cube i cube_has_dc minterms
        rule: cube_to_minterms_recurr_expand_loop.induct)
  case (1 cube minterms)
  show ?case
  proof (intro allI impI)
    fix ms'
    assume r: "cube_to_minterms_recurr cube minterms = Inr ms'"
    then obtain dc ms1 where l: "expand_loop cube 0 False minterms = Inr (dc, ms1)"
      by (auto simp: cube_to_minterms_recurr.simps [of cube minterms] split: sum.splits)
    from 1 l have dc: "dc = (\<exists>j. j < length cube \<and> cube ! j = DONT_CARE)"
      and s: "set ms1 = set minterms
                 \<union> (if \<exists>j. j < length cube \<and> cube ! j = DONT_CARE
                    then minterms_of cube else {})"
      and u: "\<forall>j. j < length cube \<longrightarrow> cube ! j \<noteq> UNKNOWN"
      by auto
    show "set ms' = set minterms \<union> minterms_of cube"
    proof (cases dc)
      case True
      with r l have "ms' = ms1"
        by (simp add: cube_to_minterms_recurr.simps [of cube minterms])
      with s dc True show ?thesis by simp
    next
      case False
      with r l obtain v where v: "minterm_loop cube 0 0 = Inr v" and m: "ms' = ms1 @ [v]"
        by (auto simp: cube_to_minterms_recurr.simps [of cube minterms] split: sum.splits)
      from minterm_loop_value [OF v] have vv: "v = cube_value cube" by simp
      from False dc have nd: "DONT_CARE \<notin> set cube" by (auto simp: in_set_conv_nth)
      from u have nu: "UNKNOWN \<notin> set cube" by (auto simp: in_set_conv_nth)
      from covers_value [OF nd nu] have "minterms_of cube = {cube_value cube}"
        by (auto simp: minterms_of_def)
      with s dc False m vv show ?thesis by auto
    qed
  qed
next
  case (2 cube i cube_has_dc minterms)
  show ?case
  proof (intro allI impI)
    fix dc' ms'
    assume r: "expand_loop cube i cube_has_dc minterms = Inr (dc', ms')"
    let ?D = "\<lambda>i. \<exists>j. i \<le> j \<and> j < length cube \<and> cube ! j = DONT_CARE"
    let ?U = "\<lambda>i. \<forall>j. i \<le> j \<and> j < length cube \<longrightarrow> cube ! j \<noteq> UNKNOWN"
    have Ds: "?D i = ((i < length cube \<and> cube ! i = DONT_CARE) \<or> ?D (Suc i))"
      by (rule ex_from_split)
    have Us: "?U i = ((i < length cube \<longrightarrow> cube ! i \<noteq> UNKNOWN) \<and> ?U (Suc i))"
      by (rule all_from_split)
    show "dc' = (cube_has_dc \<or> ?D i)
           \<and> set ms' = set minterms \<union> (if ?D i then minterms_of cube else {})
           \<and> ?U i"
    proof (cases "i < length cube")
      case False
      with r have "dc' = cube_has_dc" "ms' = minterms"
        by (simp_all add: expand_loop.simps [of cube i cube_has_dc minterms])
      with False show ?thesis by auto
    next
      case lt: True
      show ?thesis
      proof (cases "cube ! i = DONT_CARE")
        case True
        from r lt True obtain b ba where
          r1: "cube_to_minterms_recurr (cube[i := TRUE]) minterms = Inr b" and
          r2: "cube_to_minterms_recurr (cube[i := FALSE]) b = Inr ba" and
          r3: "expand_loop cube (Suc i) True ba = Inr (dc', ms')"
          by (auto simp: expand_loop.simps [of cube i cube_has_dc minterms] split: sum.splits)
        from "2.IH"(1) [OF lt True] r1
        have b: "set b = set minterms \<union> minterms_of (cube[i := TRUE])" by simp
        from "2.IH"(2) [OF lt True r1] r2
        have ba: "set ba = set b \<union> minterms_of (cube[i := FALSE])" by simp
        from "2.IH"(3) [OF lt True r1 r2] r3
        have c: "dc' = True"
          "set ms' = set ba \<union> (if ?D (Suc i) then minterms_of cube else {})"
          "?U (Suc i)"
          by simp_all
        from b ba c(2) minterms_of_update [OF lt True]
        have "set ms' = set minterms \<union> minterms_of cube" by auto
        moreover from lt True have "?D i" by auto
        moreover from c(3) True have "?U i" by (subst Us) simp
        ultimately show ?thesis using c(1) by simp
      next
        case False
        show ?thesis
        proof (cases "cube ! i = TRUE \<or> cube ! i = FALSE")
          case tf: True
          with r lt False have r4: "expand_loop cube (Suc i) cube_has_dc minterms = Inr (dc', ms')"
            by (simp add: expand_loop.simps [of cube i cube_has_dc minterms])
          from "2.IH"(4) [OF lt False tf] r4
          have c: "dc' = (cube_has_dc \<or> ?D (Suc i))"
            "set ms' = set minterms \<union> (if ?D (Suc i) then minterms_of cube else {})"
            "?U (Suc i)"
            by simp_all
          from False have "?D i = ?D (Suc i)" by (subst Ds) simp
          moreover from tf c(3) have "?U i" by (subst Us) auto
          ultimately show ?thesis using c(1,2) by simp
        next
          case False
          with r lt \<open>cube ! i \<noteq> DONT_CARE\<close> show ?thesis
            by (simp add: expand_loop.simps [of cube i cube_has_dc minterms])
        qed
      qed
    qed
  qed
qed

lemma cube_to_minterms_set:
  "cube_to_minterms cube = Inr ms \<Longrightarrow> set ms = minterms_of cube"
  using expand_sound(1) [of cube "[]"] by (simp add: cube_to_minterms_def)

lemma expand_total:
  shows "UNKNOWN \<notin> set cube \<longrightarrow> length cube \<le> 31
           \<longrightarrow> (\<exists>ms'. cube_to_minterms_recurr cube minterms = Inr ms')"
    and "UNKNOWN \<notin> set cube \<longrightarrow> length cube \<le> 31
           \<longrightarrow> (\<exists>r. expand_loop cube i cube_has_dc minterms = Inr r)"
proof (induction cube minterms and cube i cube_has_dc minterms
        rule: cube_to_minterms_recurr_expand_loop.induct)
  case (1 cube minterms)
  show ?case
  proof (intro impI)
    assume u: "UNKNOWN \<notin> set cube" and l: "length cube \<le> 31"
    with 1 obtain dc ms1 where e: "expand_loop cube 0 False minterms = Inr (dc, ms1)"
      by auto
    from l obtain v where v: "minterm_loop cube 0 0 = Inr v"
      using minterm_loop_ok [of 0 cube 0] by auto
    from e v show "\<exists>ms'. cube_to_minterms_recurr cube minterms = Inr ms'"
      by (simp add: cube_to_minterms_recurr.simps [of cube minterms])
  qed
next
  case (2 cube i cube_has_dc minterms)
  show ?case
  proof (intro impI)
    assume u: "UNKNOWN \<notin> set cube" and l: "length cube \<le> 31"
    have ut: "UNKNOWN \<notin> set (cube[i := TRUE])" and uf: "UNKNOWN \<notin> set (cube[i := FALSE])"
      using u set_update_subset_insert [of cube i] by auto
    show "\<exists>r. expand_loop cube i cube_has_dc minterms = Inr r"
    proof (cases "i < length cube")
      case False
      then show ?thesis by (simp add: expand_loop.simps [of cube i cube_has_dc minterms])
    next
      case lt: True
      show ?thesis
      proof (cases "cube ! i = DONT_CARE")
        case True
        from "2.IH"(1) [OF lt True] ut l obtain b where
          r1: "cube_to_minterms_recurr (cube[i := TRUE]) minterms = Inr b" by auto
        from "2.IH"(2) [OF lt True r1] uf l obtain ba where
          r2: "cube_to_minterms_recurr (cube[i := FALSE]) b = Inr ba" by auto
        from "2.IH"(3) [OF lt True r1 r2] u l obtain r where
          r3: "expand_loop cube (Suc i) True ba = Inr r" by auto
        from lt True r1 r2 r3 show ?thesis
          by (simp add: expand_loop.simps [of cube i cube_has_dc minterms])
      next
        case False
        from u lt have "cube ! i \<noteq> UNKNOWN" by (metis nth_mem)
        with False have tf: "cube ! i = TRUE \<or> cube ! i = FALSE" by (cases "cube ! i") auto
        from "2.IH"(4) [OF lt False tf] u l obtain r where
          "expand_loop cube (Suc i) cube_has_dc minterms = Inr r" by auto
        with lt False tf show ?thesis
          by (simp add: expand_loop.simps [of cube i cube_has_dc minterms])
      qed
    qed
  qed
qed

lemma cube_to_minterms_ok:
  "UNKNOWN \<notin> set cube \<Longrightarrow> length cube \<le> 31 \<Longrightarrow> \<exists>ms. cube_to_minterms cube = Inr ms"
  using expand_total(1) [of cube "[]"] by (simp add: cube_to_minterms_def)

lemma mark_minterms_effect:
  "fold_err (mark_minterm on_set) ms lut_mask = Inr mask'
     \<Longrightarrow> length mask' = length lut_mask
         \<and> (\<forall>m. m < length lut_mask \<longrightarrow>
               mask' ! m = (if m \<in> set ms then (if on_set then TRUE else FALSE) else lut_mask ! m))"
proof (induction ms arbitrary: lut_mask)
  case Nil
  then show ?case by simp
next
  case (Cons a ms)
  from Cons.prems obtain m1 where 1: "mark_minterm on_set a lut_mask = Inr m1"
    and r: "fold_err (mark_minterm on_set) ms m1 = Inr mask'"
    by (auto split: sum.splits)
  from 1 have a: "a < length lut_mask"
    and m1: "m1 = lut_mask[a := (if on_set then TRUE else FALSE)]"
    by (auto simp: mark_minterm_def split: if_splits)
  from Cons.IH [OF r] a show ?case
    unfolding m1 by (auto simp: nth_list_update)
qed

lemma mark_minterms_ok:
  "\<forall>m\<in>set ms. m < length lut_mask \<Longrightarrow> \<exists>mask'. fold_err (mark_minterm on_set) ms lut_mask = Inr mask'"
  by (induction ms arbitrary: lut_mask) (auto simp: mark_minterm_def)

lemma mark_row_effect:
  assumes "mark_row on_set num_inputs row lut_mask = Inr mask'"
    and "length lut_mask = 2 ^ num_inputs"
  shows "length mask' = 2 ^ num_inputs
       \<and> (\<forall>m. m < 2 ^ num_inputs \<longrightarrow>
             mask' ! m = (if covers (butlast row) m then (if on_set then TRUE else FALSE)
                          else lut_mask ! m))"
proof -
  from assms(1) obtain ms where len: "length (butlast row) = num_inputs"
    and c: "cube_to_minterms (butlast row) = Inr ms"
    and f: "fold_err (mark_minterm on_set) ms lut_mask = Inr mask'"
    by (auto simp: mark_row_def split: if_splits sum.splits)
  from cube_to_minterms_set [OF c] len
  have "set ms = {m. covers (butlast row) m \<and> m < 2 ^ num_inputs}"
    by (simp add: minterms_of_def)
  with mark_minterms_effect [OF f] assms(2) show ?thesis by auto
qed

lemma mark_row_ok:
  assumes "length row = Suc num_inputs" and "UNKNOWN \<notin> set (butlast row)"
    and "num_inputs \<le> 31" and "length lut_mask = 2 ^ num_inputs"
  shows "\<exists>mask'. mark_row on_set num_inputs row lut_mask = Inr mask'"
proof -
  from assms(1) have ne: "row \<noteq> []" and len: "length (butlast row) = num_inputs" by auto
  from cube_to_minterms_ok [OF assms(2)] len assms(3) obtain ms where
    c: "cube_to_minterms (butlast row) = Inr ms" by auto
  from cube_to_minterms_set [OF c] len assms(4) have "\<forall>m\<in>set ms. m < length lut_mask"
    by (auto simp: minterms_of_def)
  from mark_minterms_ok [OF this, of on_set] ne len c show ?thesis
    by (auto simp: mark_row_def)
qed

lemma mark_rows_effect:
  "fold_err (mark_row on_set num_inputs) rows lut_mask = Inr mask'
     \<Longrightarrow> length lut_mask = 2 ^ num_inputs
     \<Longrightarrow> length mask' = 2 ^ num_inputs
         \<and> (\<forall>m. m < 2 ^ num_inputs \<longrightarrow>
               mask' ! m = (if covered rows m then (if on_set then TRUE else FALSE)
                            else lut_mask ! m))"
proof (induction rows arbitrary: lut_mask)
  case Nil
  then show ?case by (simp add: covered_def)
next
  case (Cons row rows)
  from Cons.prems(1) obtain m1 where
    1: "mark_row on_set num_inputs row lut_mask = Inr m1" and
    2: "fold_err (mark_row on_set num_inputs) rows m1 = Inr mask'"
    by (auto split: sum.splits)
  from mark_row_effect [OF 1 Cons.prems(2)] Cons.IH [OF 2] show ?case
    by (auto simp: covered_def)
qed

lemma mark_rows_ok:
  "list_all (\<lambda>row. length row = Suc num_inputs \<and> list_all (\<lambda>v. v \<noteq> UNKNOWN) (butlast row)) rows
     \<Longrightarrow> num_inputs \<le> 31 \<Longrightarrow> length lut_mask = 2 ^ num_inputs
     \<Longrightarrow> \<exists>mask'. fold_err (mark_row on_set num_inputs) rows lut_mask = Inr mask'"
proof (induction rows arbitrary: lut_mask)
  case Nil
  then show ?case by simp
next
  case (Cons row rows)
  from Cons.prems(1) have l: "length row = Suc num_inputs"
    and u: "UNKNOWN \<notin> set (butlast row)"
    and rest: "list_all (\<lambda>row. length row = Suc num_inputs
                 \<and> list_all (\<lambda>v. v \<noteq> UNKNOWN) (butlast row)) rows"
    by (auto simp: list_all_iff)
  from mark_row_ok [OF l u Cons.prems(2,3), of on_set] obtain m1 where
    1: "mark_row on_set num_inputs row lut_mask = Inr m1" by auto
  from mark_row_effect [OF 1 Cons.prems(3)] have "length m1 = 2 ^ num_inputs" by simp
  from Cons.IH [OF rest Cons.prems(2) this] 1 show ?case by auto
qed

lemma encodes_on_set_first_row:
  assumes "truth_table_encodes_on_set t = Inr on_set" and "t \<noteq> []"
  shows "on_set = (last (hd t) = TRUE)"
proof -
  from assms obtain r rs where t: "t = r # rs" by (cases t) auto
  with assms(1) have ne: "r \<noteq> []"
    by (auto simp: truth_table_encodes_on_set_def split: if_splits)
  then have "r ! (length r - 1) = last r" by (simp add: last_conv_nth)
  with assms(1) t ne show ?thesis
    by (auto simp: truth_table_encodes_on_set_def split: if_splits LogicValue.splits)
qed

lemma encodes_on_set_ok:
  assumes "well_formed_table t k"
  shows "\<exists>on_set. truth_table_encodes_on_set t = Inr on_set"
proof (cases t)
  case Nil
  then show ?thesis by (auto simp: truth_table_encodes_on_set_def)
next
  case (Cons r rs)
  with assms have l: "length r = Suc k" and v: "last r = TRUE \<or> last r = FALSE"
    by (auto simp: well_formed_table_def)
  then have ne: "r \<noteq> []" by auto
  then have "r ! (length r - 1) = last r" by (simp add: last_conv_nth)
  with Cons ne v show ?thesis
    by (auto simp: truth_table_encodes_on_set_def)
qed

text \<open>
  C7. An empty table encodes the on-set; for any other table the encoding is the on-set
  exactly when the output value of the first row is true. When \<^verbatim>\<open>truth_table_to_lut_mask\<close>
  returns a mask, the mask has length \<open>2 ^ k\<close>, and under on-set encoding it is true at the
  minterms covered by the cube of some row and false elsewhere, under off-set encoding false
  at the covered minterms and true elsewhere. It returns a mask for every well-formed table.
\<close>

theorem truth_table_to_lut_mask_correct:
  "truth_table_encodes_on_set [] = Inr True
   \<and> (\<forall>on_set. truth_table_encodes_on_set t = Inr on_set \<and> t \<noteq> []
        \<longrightarrow> on_set = (last (hd t) = TRUE))
   \<and> (\<forall>lut_mask. truth_table_to_lut_mask t k = Inr lut_mask \<longrightarrow>
        length lut_mask = 2 ^ k
        \<and> (\<exists>on_set. truth_table_encodes_on_set t = Inr on_set
             \<and> (\<forall>m. m < 2 ^ k \<longrightarrow>
                   lut_mask ! m = (if covered t m then (if on_set then TRUE else FALSE)
                                   else (if on_set then FALSE else TRUE)))))
   \<and> (well_formed_table t k \<longrightarrow> (\<exists>lut_mask. truth_table_to_lut_mask t k = Inr lut_mask))"
proof -
  have a: "truth_table_encodes_on_set [] = Inr True"
    by (simp add: truth_table_encodes_on_set_def)
  have b: "on_set = (last (hd t) = TRUE)"
    if "truth_table_encodes_on_set t = Inr on_set \<and> t \<noteq> []" for on_set
    using that encodes_on_set_first_row by blast
  have c: "length lut_mask = 2 ^ k
        \<and> (\<exists>on_set. truth_table_encodes_on_set t = Inr on_set
             \<and> (\<forall>m. m < 2 ^ k \<longrightarrow>
                   lut_mask ! m = (if covered t m then (if on_set then TRUE else FALSE)
                                   else (if on_set then FALSE else TRUE))))"
    if r: "truth_table_to_lut_mask t k = Inr lut_mask" for lut_mask
  proof -
    from r obtain on_set where o: "truth_table_encodes_on_set t = Inr on_set"
      and f: "fold_err (mark_row on_set k) t (replicate (2 ^ k) (if on_set then FALSE else TRUE))
                = Inr lut_mask"
      by (auto simp: truth_table_to_lut_mask_def split: sum.splits if_splits)
    from mark_rows_effect [OF f] o show ?thesis by auto
  qed
  have d: "\<exists>lut_mask. truth_table_to_lut_mask t k = Inr lut_mask" if w: "well_formed_table t k"
  proof -
    from encodes_on_set_ok [OF w] obtain on_set where
      o: "truth_table_encodes_on_set t = Inr on_set" by auto
    from w have k: "k \<le> 31" and rows: "list_all (\<lambda>row. length row = Suc k
                      \<and> list_all (\<lambda>v. v \<noteq> UNKNOWN) (butlast row)) t"
      by (auto simp: well_formed_table_def)
    from mark_rows_ok [OF rows k, of "replicate (2 ^ k) (if on_set then FALSE else TRUE)" on_set]
    obtain m where "fold_err (mark_row on_set k) t
        (replicate (2 ^ k) (if on_set then FALSE else TRUE)) = Inr m" by auto
    with o k show ?thesis by (auto simp: truth_table_to_lut_mask_def)
  qed
  from a b c d show ?thesis by blast
qed

theorem truth_table_to_lut_mask_correct_witness:
  "well_formed_table example_table 2
   \<and> truth_table_encodes_on_set example_table = Inr True
   \<and> example_table \<noteq> []
   \<and> True = (last (hd example_table) = TRUE)
   \<and> truth_table_to_lut_mask example_table 2 = Inr [TRUE, TRUE, FALSE, TRUE]
   \<and> length [TRUE, TRUE, FALSE, TRUE] = (2::nat) ^ 2
   \<and> covered example_table 0 \<and> covered example_table 1
   \<and> \<not> covered example_table 2 \<and> covered example_table 3
   \<and> truth_table_to_lut_mask [[TRUE, DONT_CARE, FALSE]] 2 = Inr [TRUE, FALSE, TRUE, FALSE]
   \<and> truth_table_to_lut_mask [] 2 = Inr [FALSE, FALSE, FALSE, FALSE]"
proof -
  have w: "well_formed_table example_table 2" by code_simp
  have o: "truth_table_encodes_on_set example_table = Inr True" by code_simp
  have ne: "example_table \<noteq> []" by (simp add: example_table_def)
  from truth_table_to_lut_mask_correct [of example_table 2] w o ne
  have f: "True = (last (hd example_table) = TRUE)"
    and "\<exists>lut_mask. truth_table_to_lut_mask example_table 2 = Inr lut_mask"
    by blast+
  have m: "truth_table_to_lut_mask example_table 2 = Inr [TRUE, TRUE, FALSE, TRUE]"
    by code_simp
  have c: "covered example_table 0 \<and> covered example_table 1
      \<and> \<not> covered example_table 2 \<and> covered example_table 3"
    by code_simp
  have x: "truth_table_to_lut_mask [[TRUE, DONT_CARE, FALSE]] 2 = Inr [TRUE, FALSE, TRUE, FALSE]"
    "truth_table_to_lut_mask [] 2 = Inr [FALSE, FALSE, FALSE, FALSE]"
    by code_simp+
  from w o ne f m c x show ?thesis by simp
qed

section \<open>Properties of the transitive fill\<close>

lemma finite_prev_edges: "finite (prev_edges route)"
proof -
  have "prev_edges route \<subseteq> (\<lambda>i. (nat (prev_pb_pin_id (route ! i)), i)) ` {..<length route}"
    by (auto simp: prev_edges_def)
  then show ?thesis by (rule finite_subset) simp
qed

lemma wf_prev_edges: "acyclic (prev_edges route) \<Longrightarrow> wf (prev_edges route)"
  by (rule finite_acyclic_wf [OF finite_prev_edges])

lemma prev_edges_cong:
  assumes "length route' = length route"
    and "\<forall>k<length route. prev_pb_pin_id (route' ! k) = prev_pb_pin_id (route ! k)"
  shows "prev_edges route' = prev_edges route"
  using assms by (auto simp: prev_edges_def)

lemma prev_edges_forward:
  assumes "list_all (\<lambda>i. 0 \<le> prev_pb_pin_id (route ! i) \<longrightarrow> nat (prev_pb_pin_id (route ! i)) < i)
             [0 ..< length route]"
  shows "acyclic (prev_edges route)"
proof -
  from assms have "prev_edges route \<subseteq> less_than"
    by (auto simp: prev_edges_def list_all_iff)
  from wf_subset [OF wf_less_than this] show ?thesis by (rule wf_acyclic)
qed

lemma fill_post_refl: "fill_post route route"
  by (simp add: fill_post_def)

lemma fill_post_trans: "fill_post r1 r2 \<Longrightarrow> fill_post r2 r3 \<Longrightarrow> fill_post r1 r3"
  by (auto simp: fill_post_def)

lemma copy_atom_net_post:
  assumes p: "fill_post route route1"
    and i: "i < length route" and d: "d < length route"
    and pi: "prev_pb_pin_id (route ! i) = int d"
    and ni: "atom_net_id (route ! i) = None"
    and nd: "atom_net_id (route1 ! d) \<noteq> None"
  shows "fill_post route (copy_atom_net route1 (int i) (int d))
       \<and> atom_net_id (copy_atom_net route1 (int i) (int d) ! i) \<noteq> None"
proof -
  let ?r = "copy_atom_net route1 (int i) (int d)"
  from p have len: "length route1 = length route"
    and pr: "\<forall>k<length route. prev_pb_pin_id (route1 ! k) = prev_pb_pin_id (route ! k)"
    and keep: "\<forall>k<length route. atom_net_id (route ! k) \<noteq> None
           \<longrightarrow> atom_net_id (route1 ! k) = atom_net_id (route ! k)"
    and fol: "nets_follow_prev route \<longrightarrow> nets_follow_prev route1"
    by (auto simp: fill_post_def)
  have l: "length ?r = length route" by (simp add: copy_atom_net_def len)
  have prv: "prev_pb_pin_id (?r ! k) = prev_pb_pin_id (route1 ! k)" if "k < length route" for k
    using that len by (cases "k = i") (simp_all add: copy_atom_net_def)
  have net: "atom_net_id (?r ! k) = (if k = i then atom_net_id (route1 ! d) else atom_net_id (route1 ! k))"
    if "k < length route" for k
    using that len by (cases "k = i") (simp_all add: copy_atom_net_def)
  have f: "nets_follow_prev ?r" if f1: "nets_follow_prev route1"
    unfolding nets_follow_prev_def
  proof (intro allI impI)
    fix k
    assume k: "k < length ?r"
      and h: "prev_pb_pin_id (?r ! k) \<noteq> OPEN \<and> atom_net_id (?r ! k) \<noteq> None"
    from k l have kl: "k < length route" by simp
    have pi1: "prev_pb_pin_id (route1 ! i) = int d" using pr i pi by simp
    show "0 \<le> prev_pb_pin_id (?r ! k)
          \<and> nat (prev_pb_pin_id (?r ! k)) < length ?r
          \<and> atom_net_id (?r ! nat (prev_pb_pin_id (?r ! k))) = atom_net_id (?r ! k)"
    proof (cases "k = i")
      case True
      with prv [OF i] pi1 net [OF i] net [OF d] d l show ?thesis by simp
    next
      case False
      with h kl prv [OF kl] net [OF kl]
      have h1: "prev_pb_pin_id (route1 ! k) \<noteq> OPEN \<and> atom_net_id (route1 ! k) \<noteq> None" by simp
      with f1 kl len have a: "0 \<le> prev_pb_pin_id (route1 ! k)"
        and b: "nat (prev_pb_pin_id (route1 ! k)) < length route"
        and c: "atom_net_id (route1 ! nat (prev_pb_pin_id (route1 ! k))) = atom_net_id (route1 ! k)"
        by (auto simp: nets_follow_prev_def)
      show ?thesis
      proof (cases "nat (prev_pb_pin_id (route1 ! k)) = i")
        case True
        with c h1 have ni1: "atom_net_id (route1 ! i) \<noteq> None" by simp
        have "prev_pb_pin_id (route1 ! i) \<noteq> OPEN" using pi1 by (simp add: OPEN_def)
        with f1 i len ni1 pi1 have "atom_net_id (route1 ! d) = atom_net_id (route1 ! i)"
          by (auto simp: nets_follow_prev_def)
        with True c False a b l prv [OF kl] net [OF kl] net [OF i] show ?thesis by simp
      next
        case nb: False
        with False a b c l prv [OF kl] net [OF kl] net [OF b] show ?thesis by simp
      qed
    qed
  qed
  have "fill_post route ?r"
    unfolding fill_post_def
  proof (intro conjI allI impI)
    show "length ?r = length route" by (rule l)
    show "prev_pb_pin_id (?r ! k) = prev_pb_pin_id (route ! k)" if "k < length route" for k
      using that prv pr by simp
    show "atom_net_id (?r ! k) = atom_net_id (route ! k)"
      if "k < length route" "atom_net_id (route ! k) \<noteq> None" for k
      using that net [OF that(1)] keep ni by (cases "k = i") auto
    show "nets_follow_prev ?r" if "nets_follow_prev route"
      using that fol f by simp
  qed
  moreover have "atom_net_id (?r ! i) \<noteq> None" using net [OF i] nd by simp
  ultimately show ?thesis by simp
qed

lemma load_atom_index_returns:
  assumes w: "wf (prev_edges route)"
  shows "\<exists>r. load_atom_index_for_pb_pin route (int i) = Some r
           \<and> (\<forall>route'. r = Inr route' \<longrightarrow>
                 fill_post route route' \<and> i < length route \<and> atom_net_id (route' ! i) \<noteq> None)"
  using w
proof (induction i rule: wf_induct_rule)
  case (less i)
  let ?p = "prev_pb_pin_id (route ! i)"
  show ?case
  proof (cases "i < length route \<and> ?p \<noteq> OPEN \<and> atom_net_id (route ! i) = None
                 \<and> 0 \<le> ?p \<and> nat ?p < length route")
    case False
    then have "\<exists>e. load_atom_index_for_pb_pin route (int i) = Some (Inl e)"
      by (subst load_atom_index_for_pb_pin.simps) auto
    then show ?thesis by auto
  next
    case True
    then have i: "i < length route" and d: "nat ?p < length route" and p0: "0 \<le> ?p"
      and ni: "atom_net_id (route ! i) = None" and po: "?p \<noteq> OPEN"
      by simp_all
    have pd: "?p = int (nat ?p)" using p0 by simp
    show ?thesis
    proof (cases "atom_net_id (route ! nat ?p) = None")
      case nd: False
      with True have r: "load_atom_index_for_pb_pin route (int i)
          = Some (Inr (copy_atom_net route (int i) ?p))"
        by (subst load_atom_index_for_pb_pin.simps) auto
      from copy_atom_net_post [OF fill_post_refl i d pd ni nd] pd r i
      show ?thesis by simp
    next
      case nd: True
      from i p0 have "(nat ?p, i) \<in> prev_edges route"
        by (auto simp: prev_edges_def)
      from less.IH [OF this] pd obtain r1 where
        r1: "load_atom_index_for_pb_pin route ?p = Some r1" and
        p1: "\<forall>route1. r1 = Inr route1 \<longrightarrow>
                 fill_post route route1 \<and> atom_net_id (route1 ! nat ?p) \<noteq> None"
        by auto
      show ?thesis
      proof (cases r1)
        case (Inl e)
        with True nd r1 have "load_atom_index_for_pb_pin route (int i) = Some (Inl e)"
          by (subst load_atom_index_for_pb_pin.simps) auto
        then show ?thesis by simp
      next
        case (Inr route1)
        with True nd r1 have r: "load_atom_index_for_pb_pin route (int i)
            = Some (Inr (copy_atom_net route1 (int i) ?p))"
          by (subst load_atom_index_for_pb_pin.simps) auto
        from p1 Inr have "fill_post route route1" "atom_net_id (route1 ! nat ?p) \<noteq> None"
          by simp_all
        from copy_atom_net_post [OF this(1) i d pd ni this(2)] pd r i
        show ?thesis by simp
      qed
    qed
  qed
qed

lemma load_atom_index_returns_any:
  assumes "wf (prev_edges route)"
  shows "\<exists>r. load_atom_index_for_pb_pin route ipin = Some r"
proof (cases "0 \<le> ipin")
  case True
  with load_atom_index_returns [OF assms, of "nat ipin"] show ?thesis by auto
next
  case False
  then show ?thesis by (subst load_atom_index_for_pb_pin.simps) auto
qed

lemma fill_pins_returns:
  assumes "wf (prev_edges route)" and "\<forall>i\<in>set pins. i < length route"
  shows "\<exists>r. fill_pins pins route = Some r
           \<and> (\<forall>route'. r = Inr route' \<longrightarrow>
                 fill_post route route'
                 \<and> (\<forall>k\<in>set pins. prev_pb_pin_id (route' ! k) \<noteq> OPEN
                        \<longrightarrow> atom_net_id (route' ! k) \<noteq> None))"
  using assms
proof (induction pins arbitrary: route)
  case Nil
  then show ?case by (simp add: fill_post_refl)
next
  case (Cons i pins)
  from Cons.prems have i: "i < length route" and rest: "\<forall>k\<in>set pins. k < length route"
    by simp_all
  show ?case
  proof (cases "prev_pb_pin_id (route ! i) \<noteq> OPEN \<and> atom_net_id (route ! i) = None")
    case False
    from Cons.IH [OF Cons.prems(1) rest] obtain r where
      r: "fill_pins pins route = Some r" and
      p: "\<forall>route'. r = Inr route' \<longrightarrow>
                 fill_post route route'
                 \<and> (\<forall>k\<in>set pins. prev_pb_pin_id (route' ! k) \<noteq> OPEN
                        \<longrightarrow> atom_net_id (route' ! k) \<noteq> None)"
      by auto
    from False i r have f: "fill_pins (i # pins) route = Some r" by auto
    have "prev_pb_pin_id (route' ! i) \<noteq> OPEN \<longrightarrow> atom_net_id (route' ! i) \<noteq> None"
      if "r = Inr route'" for route'
    proof -
      from p that have "fill_post route route'" by simp
      with i False show ?thesis by (auto simp: fill_post_def)
    qed
    with f p show ?thesis by auto
  next
    case True
    from load_atom_index_returns [OF Cons.prems(1), of i] obtain r1 where
      r1: "load_atom_index_for_pb_pin route (int i) = Some r1" and
      p1: "\<forall>route1. r1 = Inr route1 \<longrightarrow>
              fill_post route route1 \<and> atom_net_id (route1 ! i) \<noteq> None"
      by auto
    show ?thesis
    proof (cases r1)
      case (Inl e)
      with True i r1 have "fill_pins (i # pins) route = Some (Inl e)" by simp
      then show ?thesis by simp
    next
      case (Inr route1)
      with p1 have fp: "fill_post route route1" and n1: "atom_net_id (route1 ! i) \<noteq> None"
        by simp_all
      from fp have len: "length route1 = length route"
        and pr: "\<forall>k<length route. prev_pb_pin_id (route1 ! k) = prev_pb_pin_id (route ! k)"
        by (auto simp: fill_post_def)
      from prev_edges_cong [OF len pr] Cons.prems(1) have w1: "wf (prev_edges route1)" by simp
      from rest len have rest1: "\<forall>k\<in>set pins. k < length route1" by simp
      from Cons.IH [OF w1 rest1] obtain r where
        r: "fill_pins pins route1 = Some r" and
        p: "\<forall>route'. r = Inr route' \<longrightarrow>
                 fill_post route1 route'
                 \<and> (\<forall>k\<in>set pins. prev_pb_pin_id (route' ! k) \<noteq> OPEN
                        \<longrightarrow> atom_net_id (route' ! k) \<noteq> None)"
        by auto
      from True i r1 Inr r have f: "fill_pins (i # pins) route = Some r" by simp
      have "fill_post route route'
            \<and> (\<forall>k\<in>set (i # pins). prev_pb_pin_id (route' ! k) \<noteq> OPEN
                        \<longrightarrow> atom_net_id (route' ! k) \<noteq> None)"
        if "r = Inr route'" for route'
      proof -
        from p that have q: "fill_post route1 route'"
          and s: "\<forall>k\<in>set pins. prev_pb_pin_id (route' ! k) \<noteq> OPEN
                        \<longrightarrow> atom_net_id (route' ! k) \<noteq> None"
          by simp_all
        from q n1 i len have "atom_net_id (route' ! i) \<noteq> None"
          by (auto simp: fill_post_def)
        with fill_post_trans [OF fp q] s show ?thesis by simp
      qed
      with f show ?thesis by auto
    qed
  qed
qed

lemma as_ingested_follows: "as_ingested route \<Longrightarrow> nets_follow_prev route"
  by (auto simp: as_ingested_def nets_follow_prev_def list_all_length)

text \<open>
  C6. On a table as \<^verbatim>\<open>processPorts\<close> leaves it whose \<^verbatim>\<open>prev_pb_pin_id\<close> graph is
  acyclic, \<^verbatim>\<open>load_atom_index_for_pb_pin\<close> returns for every pin, the fill returns, and
  when the fill returns a table (no assertion failed), every entry with a driver has a net,
  the net of the entry at its driver.
\<close>

theorem transitive_fill_propagates_nets:
  assumes "acyclic (prev_edges route)" and "as_ingested route"
  shows "(\<forall>ipin. \<exists>r. load_atom_index_for_pb_pin route ipin = Some r)
       \<and> (\<exists>r. load_interal_to_block_net_nums (length route) route = Some r
            \<and> (\<forall>route'. r = Inr route' \<longrightarrow>
                 length route' = length route
                 \<and> (\<forall>k<length route'. prev_pb_pin_id (route' ! k) \<noteq> OPEN \<longrightarrow>
                       0 \<le> prev_pb_pin_id (route' ! k)
                       \<and> nat (prev_pb_pin_id (route' ! k)) < length route'
                       \<and> atom_net_id (route' ! k) \<noteq> None
                       \<and> atom_net_id (route' ! k)
                           = atom_net_id (route' ! nat (prev_pb_pin_id (route' ! k))))))"
proof -
  from assms(1) have w: "wf (prev_edges route)" by (rule wf_prev_edges)
  have a: "\<forall>ipin. \<exists>r. load_atom_index_for_pb_pin route ipin = Some r"
    using load_atom_index_returns_any [OF w] by blast
  have "\<forall>i\<in>set [0 ..< length route]. i < length route" by simp
  from fill_pins_returns [OF w this] obtain r where
    r: "fill_pins [0 ..< length route] route = Some r" and
    p: "\<forall>route'. r = Inr route' \<longrightarrow>
                 fill_post route route'
                 \<and> (\<forall>k\<in>set [0 ..< length route]. prev_pb_pin_id (route' ! k) \<noteq> OPEN
                        \<longrightarrow> atom_net_id (route' ! k) \<noteq> None)"
    by blast
  have q: "length route' = length route
                 \<and> (\<forall>k<length route'. prev_pb_pin_id (route' ! k) \<noteq> OPEN \<longrightarrow>
                       0 \<le> prev_pb_pin_id (route' ! k)
                       \<and> nat (prev_pb_pin_id (route' ! k)) < length route'
                       \<and> atom_net_id (route' ! k) \<noteq> None
                       \<and> atom_net_id (route' ! k)
                           = atom_net_id (route' ! nat (prev_pb_pin_id (route' ! k))))"
    if "r = Inr route'" for route'
  proof -
    from p that have fp: "fill_post route route'"
      and s: "\<forall>k<length route. prev_pb_pin_id (route' ! k) \<noteq> OPEN
                        \<longrightarrow> atom_net_id (route' ! k) \<noteq> None"
      by simp_all
    from fp as_ingested_follows [OF assms(2)] have len: "length route' = length route"
      and f: "nets_follow_prev route'"
      by (auto simp: fill_post_def)
    from f s len show ?thesis by (auto simp: nets_follow_prev_def)
  qed
  from r q have b: "\<exists>r. load_interal_to_block_net_nums (length route) route = Some r
            \<and> (\<forall>route'. r = Inr route' \<longrightarrow>
                 length route' = length route
                 \<and> (\<forall>k<length route'. prev_pb_pin_id (route' ! k) \<noteq> OPEN \<longrightarrow>
                       0 \<le> prev_pb_pin_id (route' ! k)
                       \<and> nat (prev_pb_pin_id (route' ! k)) < length route'
                       \<and> atom_net_id (route' ! k) \<noteq> None
                       \<and> atom_net_id (route' ! k)
                           = atom_net_id (route' ! nat (prev_pb_pin_id (route' ! k)))))"
    unfolding load_interal_to_block_net_nums_def by blast
  from a b show ?thesis by simp
qed

theorem transitive_fill_propagates_nets_witness:
  "acyclic (prev_edges example_route)
   \<and> as_ingested example_route
   \<and> load_atom_index_for_pb_pin example_route 2
       = Some (Inr [route_entry (Some 7) OPEN, route_entry (Some 7) 0,
                    route_entry (Some 7) 1, route_entry None OPEN])
   \<and> load_interal_to_block_net_nums (length example_route) example_route
       = Some (Inr example_route_filled)
   \<and> prev_pb_pin_id (example_route_filled ! 2) \<noteq> OPEN
   \<and> atom_net_id (example_route_filled ! 2) \<noteq> None
   \<and> atom_net_id (example_route_filled ! 2)
       = atom_net_id (example_route_filled ! nat (prev_pb_pin_id (example_route_filled ! 2)))"
proof -
  have a: "acyclic (prev_edges example_route)"
    by (rule prev_edges_forward) code_simp
  have g: "as_ingested example_route" by code_simp
  have l: "load_atom_index_for_pb_pin example_route 2
       = Some (Inr [route_entry (Some 7) OPEN, route_entry (Some 7) 0,
                    route_entry (Some 7) 1, route_entry None OPEN])"
    by code_simp
  have f: "load_interal_to_block_net_nums (length example_route) example_route
       = Some (Inr example_route_filled)"
    by code_simp
  have k: "2 < length example_route_filled" and p: "prev_pb_pin_id (example_route_filled ! 2) \<noteq> OPEN"
    by (simp_all add: example_route_filled_def route_entry_def OPEN_def)
  from transitive_fill_propagates_nets [OF a g] obtain r where
    r: "load_interal_to_block_net_nums (length example_route) example_route = Some r" and
    q: "\<forall>route'. r = Inr route' \<longrightarrow>
          length route' = length example_route
          \<and> (\<forall>k<length route'. prev_pb_pin_id (route' ! k) \<noteq> OPEN \<longrightarrow>
                0 \<le> prev_pb_pin_id (route' ! k)
                \<and> nat (prev_pb_pin_id (route' ! k)) < length route'
                \<and> atom_net_id (route' ! k) \<noteq> None
                \<and> atom_net_id (route' ! k)
                    = atom_net_id (route' ! nat (prev_pb_pin_id (route' ! k))))"
    by blast
  from r f have e: "r = Inr example_route_filled" by simp
  from q [rule_format, OF e]
  have "\<forall>k<length example_route_filled. prev_pb_pin_id (example_route_filled ! k) \<noteq> OPEN \<longrightarrow>
           0 \<le> prev_pb_pin_id (example_route_filled ! k)
           \<and> nat (prev_pb_pin_id (example_route_filled ! k)) < length example_route_filled
           \<and> atom_net_id (example_route_filled ! k) \<noteq> None
           \<and> atom_net_id (example_route_filled ! k)
               = atom_net_id (example_route_filled ! nat (prev_pb_pin_id (example_route_filled ! k)))"
    by (rule conjunct2)
  with k p
  have "atom_net_id (example_route_filled ! 2) \<noteq> None
       \<and> atom_net_id (example_route_filled ! 2)
           = atom_net_id (example_route_filled ! nat (prev_pb_pin_id (example_route_filled ! 2)))"
    by blast
  with a g l f p show ?thesis by blast
qed

section \<open>Properties of the constant-generator marker\<close>

lemma all_unconnected_Inr:
  "all_unconnected route pins = Inr b \<Longrightarrow> b = list_all (unconnected route) pins"
  by (induction pins) (auto simp: unconnected_def split: if_splits)

lemma check_constant_output_Inr:
  "check_constant_output atom_nl route p () = Inr () \<Longrightarrow> output_driver_constant atom_nl route p"
  by (auto simp: check_constant_output_def output_driver_constant_def unconnected_def
      split: if_splits)

lemma check_constant_outputs_Inr:
  assumes "fold_err (check_constant_output atom_nl route) pins () = Inr u"
  shows "list_all (output_driver_constant atom_nl route) pins"
  unfolding list_all_iff
proof
  fix p assume "p \<in> set pins"
  from fold_err_unit_all [OF assms this] show "output_driver_constant atom_nl route p"
    by (rule check_constant_output_Inr)
qed

lemma generators_checked_append:
  "generators_checked atom_nl route (xs @ ys)
     = (generators_checked atom_nl route xs \<and> generators_checked atom_nl route ys)"
  by (simp add: generators_checked_def)

lemma generators_checked_Nil: "generators_checked atom_nl route []"
  by (simp add: generators_checked_def)

lemma marker_sound:
  shows "\<forall>r'. mark_constant_generators_rec atom_nl route pb reported = Inr r' \<longrightarrow>
           r' = reported @ map pb_name (filter (is_constant_generator route) (leaves pb))
           \<and> generators_checked atom_nl route (leaves pb)"
    and "\<forall>r'. mark_children atom_nl route pbs reported = Inr r' \<longrightarrow>
           r' = reported @ map pb_name (filter (is_constant_generator route) (leaves_of_children pbs))
           \<and> generators_checked atom_nl route (leaves_of_children pbs)"
    and "\<forall>r'. mark_children_of_types atom_nl route rows reported = Inr r' \<longrightarrow>
           r' = reported @ map pb_name (filter (is_constant_generator route) (leaves_of_types rows))
           \<and> generators_checked atom_nl route (leaves_of_types rows)"
proof (induction atom_nl route pb reported and atom_nl route pbs reported
         and atom_nl route rows reported
       rule: mark_constant_generators_rec_mark_children_mark_children_of_types.induct)
  case (1 atom_nl route name type_name blif ins clks outs children reported)
  let ?pb = "Pb name type_name blif ins clks outs children"
  show ?case
  proof (intro allI impI)
    fix r'
    assume r: "mark_constant_generators_rec atom_nl route ?pb reported = Inr r'"
    show "r' = reported @ map pb_name (filter (is_constant_generator route) (leaves ?pb))
           \<and> generators_checked atom_nl route (leaves ?pb)"
    proof (cases "blif = None")
      case True
      with r "1.IH" show ?thesis by simp
    next
      case False
      then obtain m where leaf: "blif = Some m" by auto
      then have lv: "leaves ?pb = [?pb]" by simp
      show ?thesis
      proof (cases "type_name = ''inpad''")
        case True
        with r leaf show ?thesis unfolding lv
          by (simp add: is_constant_generator_def generators_checked_def)
      next
        case False
        from r leaf False obtain u1 cg where
          a: "all_unconnected route (concat ins) = Inr u1" and
          b: "(if u1 then all_unconnected route (concat clks) else Inr False) = Inr cg"
          by (auto split: sum.splits)
        from all_unconnected_Inr [OF a] have u1: "u1 = list_all (unconnected route) (concat ins)" .
        from b have "cg = (u1 \<and> list_all (unconnected route) (concat clks))"
          by (auto split: if_splits dest: all_unconnected_Inr)
        with u1 False have cg: "cg = is_constant_generator route ?pb"
          by (simp add: is_constant_generator_def)
        show ?thesis
        proof (cases cg)
          case True
          with r leaf False a b obtain u where
            o: "fold_err (check_constant_output atom_nl route) (concat outs) () = Inr u"
            and r': "r' = reported @ [name]"
            by (auto split: sum.splits)
          from check_constant_outputs_Inr [OF o] have "outputs_constant atom_nl route ?pb"
            by (simp add: outputs_constant_def)
          with True cg r' show ?thesis unfolding lv
            by (simp add: generators_checked_def)
        next
          case nc: False
          with r leaf False a b have "r' = reported" by auto
          with nc cg show ?thesis unfolding lv by (simp add: generators_checked_def)
        qed
      qed
    qed
  qed
next
  case (2 atom_nl route reported)
  show ?case by (simp add: generators_checked_Nil)
next
  case (3 atom_nl route child rest reported)
  show ?case
  proof (intro allI impI)
    fix r'
    assume r: "mark_children atom_nl route (child # rest) reported = Inr r'"
    show "r' = reported @ map pb_name (filter (is_constant_generator route)
                                          (leaves_of_children (child # rest)))
           \<and> generators_checked atom_nl route (leaves_of_children (child # rest))"
    proof (cases "pb_name child \<noteq> None")
      case True
      with r obtain r1 where
        1: "mark_constant_generators_rec atom_nl route child reported = Inr r1" and
        2: "mark_children atom_nl route rest r1 = Inr r'"
        by (auto split: sum.splits)
      from "3.IH"(1) [OF True] 1
      have a: "r1 = reported @ map pb_name (filter (is_constant_generator route) (leaves child))"
        and b: "generators_checked atom_nl route (leaves child)" by simp_all
      from "3.IH"(2) [OF True 1] 2
      have c: "r' = r1 @ map pb_name (filter (is_constant_generator route) (leaves_of_children rest))"
        and d: "generators_checked atom_nl route (leaves_of_children rest)" by simp_all
      from a b c d True show ?thesis by (simp add: generators_checked_append)
    next
      case False
      with r have 2: "mark_children atom_nl route rest reported = Inr r'" by simp
      from "3.IH"(3) [OF False] 2 False show ?thesis
        by (simp add: generators_checked_append generators_checked_Nil)
    qed
  qed
next
  case (4 atom_nl route reported)
  show ?case by (simp add: generators_checked_Nil)
next
  case (5 atom_nl route row rest reported)
  show ?case
  proof (intro allI impI)
    fix r'
    assume r: "mark_children_of_types atom_nl route (row # rest) reported = Inr r'"
    then obtain r1 where
      1: "mark_children atom_nl route row reported = Inr r1" and
      2: "mark_children_of_types atom_nl route rest r1 = Inr r'"
      by (auto split: sum.splits)
    from "5.IH"(1) 1
    have a: "r1 = reported @ map pb_name (filter (is_constant_generator route) (leaves_of_children row))"
      and b: "generators_checked atom_nl route (leaves_of_children row)" by simp_all
    from "5.IH"(2) [OF 1] 2
    have c: "r' = r1 @ map pb_name (filter (is_constant_generator route) (leaves_of_types rest))"
      and d: "generators_checked atom_nl route (leaves_of_types rest)" by simp_all
    from a b c d
    show "r' = reported @ map pb_name (filter (is_constant_generator route)
                                          (leaves_of_types (row # rest)))
           \<and> generators_checked atom_nl route (leaves_of_types (row # rest))"
      by (simp add: generators_checked_append)
  qed
qed

text \<open>
  C9. When \<^verbatim>\<open>mark_constant_generators_rec\<close> returns, the primitives it reported as
  constant generators are exactly the primitives it reached that are not primary inputs and
  whose input pins and clock pins carry no atom net; and for each of them, every output pin
  that carries an atom net carries one whose driver pin is marked constant in the atom
  netlist.
\<close>

theorem constant_generators_marked:
  assumes "mark_constant_generators_rec atom_nl route pb reported = Inr reported'"
  shows "reported' = reported @ map pb_name (filter (is_constant_generator route) (leaves pb))
       \<and> (\<forall>leaf. leaf \<in> set (leaves pb) \<and> is_constant_generator route leaf \<longrightarrow>
             (\<forall>p. p \<in> set (concat (pb_output_pins leaf)) \<and> atom_net_id (route ! nat p) \<noteq> None
                \<longrightarrow> pin_is_constant atom_nl (net_driver atom_nl (atom_net_id (route ! nat p)))))"
proof -
  from marker_sound(1) [of atom_nl route pb reported] assms
  have a: "reported' = reported @ map pb_name (filter (is_constant_generator route) (leaves pb))"
    and g: "generators_checked atom_nl route (leaves pb)"
    by simp_all
  have "pin_is_constant atom_nl (net_driver atom_nl (atom_net_id (route ! nat p)))"
    if "leaf \<in> set (leaves pb) \<and> is_constant_generator route leaf"
      and "p \<in> set (concat (pb_output_pins leaf)) \<and> atom_net_id (route ! nat p) \<noteq> None"
    for leaf p
  proof -
    from g that(1) have "outputs_constant atom_nl route leaf"
      by (auto simp: generators_checked_def list_all_iff)
    with that(2) have "output_driver_constant atom_nl route p"
      unfolding outputs_constant_def list_all_iff by blast
    with that(2) show ?thesis
      by (auto simp: output_driver_constant_def unconnected_def)
  qed
  with a show ?thesis by blast
qed

theorem constant_generators_marked_witness:
  "mark_constant_generators_rec vcc_netlist example_clb_route example_clb [] = Inr [Some ''vcc'']
   \<and> [Some ''vcc''] = [] @ map pb_name (filter (is_constant_generator example_clb_route)
                                              (leaves example_clb))
   \<and> vcc_lut \<in> set (leaves example_clb)
   \<and> is_constant_generator example_clb_route vcc_lut
   \<and> \<not> is_constant_generator example_clb_route used_lut
   \<and> 1 \<in> set (concat (pb_output_pins vcc_lut))
   \<and> atom_net_id (example_clb_route ! nat 1) \<noteq> None
   \<and> pin_is_constant vcc_netlist (net_driver vcc_netlist (atom_net_id (example_clb_route ! nat 1)))"
proof -
  have r: "mark_constant_generators_rec vcc_netlist example_clb_route example_clb []
             = Inr [Some ''vcc'']"
    by code_simp
  have l: "vcc_lut \<in> set (leaves example_clb) \<and> is_constant_generator example_clb_route vcc_lut"
    by code_simp
  have n: "\<not> is_constant_generator example_clb_route used_lut"
    by code_simp
  have p: "1 \<in> set (concat (pb_output_pins vcc_lut))
      \<and> atom_net_id (example_clb_route ! nat 1) \<noteq> None"
    by code_simp
  from constant_generators_marked [OF r] l p n r show ?thesis by blast
qed


end
